theory Spec2Isabelle
  imports Main "HOL-Library.Sublist" "HOL-Library.AList"
begin

section \<open>Python strings\<close>

text \<open>
  A Python \<open>str\<close> is modelled as a \<open>string\<close> holding its UTF-8 bytes. Every character the
  program looks for (\<open>%\<close>, \<open>/\<close>, \<open>?\<close>, \<open>&\<close>, \<open>=\<close>, \<open>.\<close>, the forbidden characters) is ASCII,
  and an ASCII byte never occurs inside the encoding of another code point, so searching,
  splitting and replacing on the bytes agrees with Python on the code points.
\<close>

text \<open>\<open>sub in s\<close> for strings: \<open>sub\<close> occurs in \<open>s\<close> as a contiguous run.\<close>

fun py_in :: "string \<Rightarrow> string \<Rightarrow> bool" where
  "py_in sub [] = (sub = [])"
| "py_in sub (c # s) = (prefix sub (c # s) \<or> py_in sub s)"

text \<open>\<open>s.rfind(c)\<close>: the index of the last occurrence of \<open>c\<close>, or \<open>-1\<close>.\<close>

definition rfind :: "char \<Rightarrow> string \<Rightarrow> int" where
  "rfind c s =
     (if c \<in> set s then int (length s) - 1 - int (length (takeWhile (\<lambda>x. x \<noteq> c) (rev s)))
      else - 1)"

text \<open>\<open>s.split(c, 1)\<close> when \<open>c\<close> occurs in \<open>s\<close>: the text before and after its first occurrence.\<close>

definition split_once :: "char \<Rightarrow> string \<Rightarrow> (string \<times> string) option" where
  "split_once c s =
     (if c \<in> set s
      then Some (takeWhile (\<lambda>x. x \<noteq> c) s, tl (dropWhile (\<lambda>x. x \<noteq> c) s))
      else None)"

text \<open>\<open>s.split(c)\<close>: the fields between the occurrences of \<open>c\<close>; never the empty list.\<close>

fun split_all :: "char \<Rightarrow> string \<Rightarrow> string list" where
  "split_all c [] = [[]]"
| "split_all c (x # s) =
     (if x = c then [] # split_all c s
      else (case split_all c s of f # fs \<Rightarrow> (x # f) # fs | [] \<Rightarrow> [[x]]))"

text \<open>\<open>str(n)\<close> for a non-negative integer: its decimal digits.\<close>

definition digit :: "nat \<Rightarrow> char" where
  "digit n = ''0123456789'' ! n"

fun str :: "nat \<Rightarrow> string" where
  "str n = (if n < 10 then [digit n] else str (n div 10) @ [digit (n mod 10)])"

declare str.simps [simp del]

text \<open>\<open>filename.replace('%20', '')\<close>: left to right, every non-overlapping occurrence removed.\<close>

fun strip_pct20 :: "string \<Rightarrow> string" where
  "strip_pct20 [] = []"
| "strip_pct20 (c # s) =
     (if take 3 (c # s) = ''%20'' then strip_pct20 (drop 2 s) else c # strip_pct20 s)"

text \<open>The character class \<open>[<>:"/\\|?*]\<close> of the regular expression in \<open>sanitize_filename\<close>;
  \<open>CHR 0x22\<close> is the double quote and \<open>CHR 0x5C\<close> the backslash.\<close>

definition forbidden :: "char set" where
  "forbidden = {CHR ''<'', CHR ''>'', CHR '':'', CHR 0x22, CHR ''/'', CHR 0x5C,
                CHR ''|'', CHR ''?'', CHR ''*''}"

text \<open>\<open>re.sub(r'[<>:"/\\|?*]', '_', filename)\<close>: each forbidden character becomes an underscore.\<close>

definition sub_forbidden :: "string \<Rightarrow> string" where
  "sub_forbidden s = map (\<lambda>c. if c \<in> forbidden then CHR ''_'' else c) s"

section \<open>The library functions \<open>sanitize_filename\<close> calls\<close>

text \<open>The exception classes that can be raised inside \<open>download_video\<close>.\<close>

datatype exn = RequestException | OSError | ValueError

text \<open>
  Three pieces of the standard library are taken as parameters, since they rest on tables
  and parsers outside the program: \<open>decode_replace\<close> is \<open>bytes.decode('utf-8', 'replace')\<close>
  (its result again as UTF-8 bytes), consulted only for bytes that are not all ASCII;
  \<open>bracketed_netloc_ok\<close> is the check \<open>urlsplit\<close> makes of a netloc that has both \<open>[\<close> and
  \<open>]\<close> (an IPv6 or IPvFuture host); \<open>nfkc_netloc_ok\<close> is the check it makes of a netloc
  that is not all ASCII (no \<open>/ ? # @ :\<close> appears under NFKC normalization). Every theorem
  below holds for all values of these parameters.
\<close>

record library =
  decode_replace :: "string \<Rightarrow> string"
  bracketed_netloc_ok :: "string \<Rightarrow> bool"
  nfkc_netloc_ok :: "string \<Rightarrow> bool"

definition is_ascii :: "char \<Rightarrow> bool" where
  "is_ascii c = ((of_char c :: nat) < 128)"

text \<open>
  \<open>urllib.parse.unquote_to_bytes\<close>: \<open>%XY\<close> with two hexadecimal digits becomes the byte
  \<open>XY\<close>; a \<open>%\<close> not followed by two hexadecimal digits stays.
\<close>

definition hexval :: "char \<Rightarrow> nat option" where
  "hexval c =
     (let n = (of_char c :: nat) in
      if 48 \<le> n \<and> n \<le> 57 then Some (n - 48)
      else if 65 \<le> n \<and> n \<le> 70 then Some (n - 55)
      else if 97 \<le> n \<and> n \<le> 102 then Some (n - 87)
      else None)"

fun unquote_to_bytes :: "string \<Rightarrow> string" where
  "unquote_to_bytes (c # h1 # h2 # r) =
     (case (hexval h1, hexval h2) of
        (Some a, Some b) \<Rightarrow>
          if c = CHR ''%'' then char_of (16 * a + b) # unquote_to_bytes r
          else c # unquote_to_bytes (h1 # h2 # r)
      | _ \<Rightarrow> c # unquote_to_bytes (h1 # h2 # r))"
| "unquote_to_bytes s = s"

text \<open>The maximal runs of ASCII and of non-ASCII characters of a string, in order, each
  with its kind.\<close>

fun ascii_runs :: "string \<Rightarrow> (bool \<times> string) list" where
  "ascii_runs [] = []"
| "ascii_runs (c # s) =
     (case ascii_runs s of
        [] \<Rightarrow> [(is_ascii c, [c])]
      | (a, run) # rest \<Rightarrow>
          if a = is_ascii c then (a, c # run) # rest
          else (is_ascii c, [c]) # (a, run) # rest)"

text \<open>
  \<open>urllib.parse.unquote\<close>: the escapes of each ASCII run are turned into bytes and the
  bytes decoded as UTF-8, an invalid sequence giving U+FFFD; the other runs stay.
\<close>

definition unquote_run :: "library \<Rightarrow> bool \<times> string \<Rightarrow> string" where
  "unquote_run lib r =
     (case r of
        (ascii, run) \<Rightarrow>
          if ascii
          then (let bs = unquote_to_bytes run
                in if list_all is_ascii bs then bs else decode_replace lib bs)
          else run)"

definition unquote :: "library \<Rightarrow> string \<Rightarrow> string" where
  "unquote lib s = concat (map (unquote_run lib) (ascii_runs s))"

text \<open>
  \<open>urllib.parse.parse_qsl\<close> with its defaults (separator \<open>&\<close>, \<open>keep_blank_values=False\<close>,
  \<open>strict_parsing=False\<close>): an empty field, a field without \<open>=\<close> and a field with an empty
  value are dropped; in the others \<open>+\<close> becomes a space and name and value are unquoted.
\<close>

definition plus_to_space :: "string \<Rightarrow> string" where
  "plus_to_space s = map (\<lambda>c. if c = CHR ''+'' then CHR '' '' else c) s"

definition parse_field :: "library \<Rightarrow> string \<Rightarrow> (string \<times> string) list" where
  "parse_field lib name_value =
     (if name_value = [] then []
      else (case split_once CHR ''='' name_value of
              None \<Rightarrow> []
            | Some (n, v) \<Rightarrow>
                if v = [] then []
                else [(unquote lib (plus_to_space n), unquote lib (plus_to_space v))]))"

definition parse_qsl :: "library \<Rightarrow> string \<Rightarrow> (string \<times> string) list" where
  "parse_qsl lib qs = concat (map (parse_field lib) (split_all CHR ''&'' qs))"

text \<open>\<open>urllib.parse.parse_qs\<close>: the dictionary from each name to the list of its values, in
  the order of the query string.\<close>

fun parse_qs_add :: "(string \<times> string list) list \<Rightarrow> string \<times> string \<Rightarrow> (string \<times> string list) list" where
  "parse_qs_add parsed_result (name, v) =
     (case map_of parsed_result name of
        Some vs \<Rightarrow> AList.update name (vs @ [v]) parsed_result
      | None \<Rightarrow> parsed_result @ [(name, [v])])"

definition parse_qs :: "library \<Rightarrow> string \<Rightarrow> (string \<times> string list) list" where
  "parse_qs lib qs = foldl parse_qs_add [] (parse_qsl lib qs)"

text \<open>
  \<open>urllib.parse.urlsplit\<close>: leading C0 control characters and spaces are stripped, tab, CR
  and LF are removed, a leading \<open>scheme:\<close> is split off, then a \<open>//netloc\<close>, then the
  fragment after the first \<open>#\<close>, then the query after the first \<open>?\<close>; what is left is the
  path. It raises \<open>ValueError\<close> when the netloc has one of \<open>[\<close> and \<open>]\<close> without the other,
  when it has both and the bracketed host is refused, and when it is not all ASCII and
  the NFKC check refuses it.
\<close>

record split_result =
  scheme :: string
  netloc :: string
  path :: string
  query :: string
  fragment :: string

definition is_alpha :: "char \<Rightarrow> bool" where
  "is_alpha c = (let n = (of_char c :: nat) in (65 \<le> n \<and> n \<le> 90) \<or> (97 \<le> n \<and> n \<le> 122))"

definition is_digit :: "char \<Rightarrow> bool" where
  "is_digit c = (let n = (of_char c :: nat) in 48 \<le> n \<and> n \<le> 57)"

definition scheme_char :: "char \<Rightarrow> bool" where
  "scheme_char c = (is_alpha c \<or> is_digit c \<or> c \<in> {CHR ''+'', CHR ''-'', CHR ''.''})"

definition lower :: "char \<Rightarrow> char" where
  "lower c = (let n = (of_char c :: nat) in if 65 \<le> n \<and> n \<le> 90 then char_of (n + 32) else c)"

definition split_scheme :: "string \<Rightarrow> string \<times> string" where
  "split_scheme url =
     (case split_once CHR '':'' url of
        None \<Rightarrow> ([], url)
      | Some (s, rest) \<Rightarrow>
          if s \<noteq> [] \<and> is_alpha (hd s) \<and> list_all scheme_char s then (map lower s, rest)
          else ([], url))"

definition splitnetloc :: "string \<Rightarrow> string \<times> string" where
  "splitnetloc url =
     (if take 2 url = ''//''
      then (let r = drop 2 url;
                n = takeWhile (\<lambda>c. c \<notin> {CHR ''/'', CHR ''?'', CHR ''#''}) r
            in (n, drop (length n) r))
      else ([], url))"

definition netloc_refused :: "library \<Rightarrow> string \<Rightarrow> bool" where
  "netloc_refused lib net =
     (let opening = CHR ''['' \<in> set net; closing = CHR '']'' \<in> set net
      in (opening \<and> \<not> closing) \<or> (closing \<and> \<not> opening)
         \<or> (opening \<and> closing \<and> \<not> bracketed_netloc_ok lib net)
         \<or> (\<not> list_all is_ascii net \<and> \<not> nfkc_netloc_ok lib net))"

definition urlsplit :: "library \<Rightarrow> string \<Rightarrow> exn + split_result" where
  "urlsplit lib url0 =
     (let url1 = dropWhile (\<lambda>c. (of_char c :: nat) \<le> 32) url0;
          url2 = filter (\<lambda>c. c \<notin> {CHR 0x09, CHR 0x0D, CHR 0x0A}) url1;
          (sch, url3) = split_scheme url2;
          (net, url4) = splitnetloc url3;
          (url5, frag) = (case split_once CHR ''#'' url4 of None \<Rightarrow> (url4, []) | Some p \<Rightarrow> p);
          (url6, q) = (case split_once CHR ''?'' url5 of None \<Rightarrow> (url5, []) | Some p \<Rightarrow> p)
      in if netloc_refused lib net then Inl ValueError
         else Inr \<lparr>scheme = sch, netloc = net, path = url6, query = q, fragment = frag\<rparr>)"

text \<open>\<open>os.path.basename\<close> (POSIX): what follows the last \<open>/\<close>.\<close>

definition basename :: "string \<Rightarrow> string" where
  "basename p = drop (nat (rfind CHR ''/'' p + 1)) p"

section \<open>\<open>sanitize_filename\<close>\<close>

text \<open>The filename hint: the first value of the query parameter \<open>f\<close> when \<open>parse_qs\<close> has
  the key, the base name of the URL's path otherwise; the \<open>ValueError\<close> of \<open>urlsplit\<close> when
  it raises.\<close>

definition filename_hint :: "library \<Rightarrow> string \<Rightarrow> exn + string" where
  "filename_hint lib video_url =
     (case urlsplit lib video_url of
        Inl e \<Rightarrow> Inl e
      | Inr parsed_url \<Rightarrow>
          (let query_params = parse_qs lib (query parsed_url)
           in case map_of query_params ''f'' of
                Some vs \<Rightarrow> Inr (hd vs)
              | None \<Rightarrow> Inr (basename (path parsed_url))))"

text \<open>The two cleaning steps applied to the hint.\<close>

definition clean :: "string \<Rightarrow> string" where
  "clean filename = sub_forbidden (strip_pct20 filename)"

definition sanitize_filename :: "library \<Rightarrow> string \<Rightarrow> exn + string" where
  "sanitize_filename lib video_url =
     (case filename_hint lib video_url of
        Inl e \<Rightarrow> Inl e
      | Inr filename \<Rightarrow> Inr (clean filename))"

section \<open>\<open>os.path.splitext\<close>\<close>

text \<open>
  The extension starts at the last dot that follows the last \<open>/\<close>, provided a character
  other than a dot stands between that \<open>/\<close> and the dot (leading dots are not an extension).
\<close>

definition splitext :: "string \<Rightarrow> string \<times> string" where
  "splitext p =
     (let sepIndex = rfind CHR ''/'' p;
          dotIndex = rfind CHR ''.'' p
      in if dotIndex > sepIndex \<and>
            list_ex (\<lambda>c. c \<noteq> CHR ''.'')
              (take (nat (dotIndex - (sepIndex + 1))) (drop (nat (sepIndex + 1)) p))
         then (take (nat dotIndex) p, drop (nat dotIndex) p)
         else (p, []))"

section \<open>The download folder\<close>

text \<open>
  The state of the disk is the download folder: \<open>None\<close> while it does not exist, otherwise
  its entries with their contents. \<open>path_exists d name\<close> is \<open>os.path.exists(os.path.join(
  download_folder, name))\<close> in the existing folder \<open>d\<close>: the joined path of the empty name
  is the folder itself, and \<open>.\<close> and \<open>..\<close> name the folder and its parent. (No entry of a
  folder has a NUL character in its name, and for a name with one \<open>os.path.exists\<close> is
  \<open>False\<close>.)
\<close>

type_synonym folder = "(string \<times> string) list"

type_synonym filesystem = "folder option"

definition path_exists :: "folder \<Rightarrow> string \<Rightarrow> bool" where
  "path_exists d name = (name \<in> {[], ''.'', ''..''} \<or> name \<in> set (map fst d))"

text \<open>\<open>open(video_path, "wb")\<close> creates the entry, or truncates it when it is there.\<close>

definition open_wb :: "string \<Rightarrow> folder \<Rightarrow> folder" where
  "open_wb name d = AList.update name [] d"

text \<open>\<open>video_file.write(chunk)\<close> on the open file.\<close>

definition write_chunk :: "string \<Rightarrow> string \<Rightarrow> folder \<Rightarrow> folder" where
  "write_chunk name chunk d =
     AList.update name ((case map_of d name of None \<Rightarrow> [] | Some b \<Rightarrow> b) @ chunk) d"

section \<open>\<open>download_video\<close>\<close>

text \<open>
  What the network, the disk and the other workers of the pool do for one task.
  \<open>folder_check_early\<close>: the test \<open>os.path.exists(download_folder)\<close> of this download ran
  before another worker created the folder, so this download calls \<open>os.makedirs\<close> on a
  folder that is there by then. \<open>makedirs_fails\<close>: \<open>os.makedirs\<close> raises on a missing
  folder. \<open>fetch\<close> is \<open>None\<close> when \<open>requests.get\<close> raises; otherwise the response: whether
  \<open>raise_for_status\<close> raises, the headers read, the chunks \<open>iter_content\<close> yields and whether
  it raises after them. \<open>BadLength\<close> is a \<open>Content-Length\<close> value that \<open>int\<close> rejects.
  \<open>unseen\<close>: the entries other workers created after this download's existence checks and
  before its \<open>open\<close>; the checks do not see them. \<open>open_fails\<close>: \<open>open\<close> raises \<open>OSError\<close>.
  \<open>writable\<close> is \<open>Some k\<close> when the write after \<open>k\<close> successful ones raises. The output of
  \<open>print\<close> and of the progress bar is not part of the model.
\<close>

datatype length_header = NoLength | Length int | BadLength

record response =
  http_error :: bool
  content_type :: "string option"
  content_length :: length_header
  chunks :: "string list"
  stream_breaks :: bool

record world =
  folder_check_early :: bool
  makedirs_fails :: bool
  fetch :: "response option"
  unseen :: "string list"
  open_fails :: bool
  writable :: "nat option"

text \<open>Lines 140 and 141: \<open>os.makedirs\<close> is called when the test saw no folder; it raises
  \<open>FileExistsError\<close> when the folder is there by then, and whatever else the disk makes it
  raise when it is not. Both are \<open>OSError\<close>.\<close>

definition makedirs_raises :: "filesystem \<Rightarrow> world \<Rightarrow> bool" where
  "makedirs_raises s w = (case s of None \<Rightarrow> makedirs_fails w | Some d \<Rightarrow> folder_check_early w)"

text \<open>The folder as the existence checks of lines 165 and 168 see it.\<close>

definition seen :: "world \<Rightarrow> folder \<Rightarrow> folder" where
  "seen w d = filter (\<lambda>entry. fst entry \<notin> set (unseen w)) d"

text \<open>The name the loop tries for a value of \<open>counter\<close>: \<open>f"{base_name}_{counter}{ext}"\<close>.\<close>

definition numbered :: "string \<Rightarrow> string \<Rightarrow> nat \<Rightarrow> string" where
  "numbered base_name ext counter = base_name @ ''_'' @ str counter @ ext"

text \<open>The loop \<open>while os.path.exists(video_path)\<close>, on the variables \<open>video_name\<close> and
  \<open>counter\<close>; it returns both.\<close>

function probe :: "folder \<Rightarrow> string \<Rightarrow> string \<Rightarrow> string \<Rightarrow> nat \<Rightarrow> string \<times> nat" where
  "probe d base_name ext video_name counter =
     (if path_exists d video_name
      then probe d base_name ext (numbered base_name ext counter) (counter + 1)
      else (video_name, counter))"
  by pat_completeness auto

text \<open>Lines 161 to 171 after \<open>sanitize_filename\<close>: the sanitized name, or, when its path
  exists, the name the loop ends with.\<close>

definition unused_name :: "folder \<Rightarrow> string \<Rightarrow> string" where
  "unused_name d video_name =
     (if path_exists d video_name
      then (case splitext video_name of
              (base_name, ext) \<Rightarrow> fst (probe d base_name ext video_name 1))
      else video_name)"

text \<open>The loop \<open>for chunk in video_response.iter_content(...)\<close>: each chunk is written to the
  file; the write after \<open>k\<close> successful ones raises when \<open>writable\<close> is \<open>Some k\<close>.\<close>

fun write_chunks :: "string \<Rightarrow> string list \<Rightarrow> nat option \<Rightarrow> folder \<Rightarrow> exn option \<times> folder" where
  "write_chunks name [] limit d = (None, d)"
| "write_chunks name (chunk # rest) limit d =
     (case limit of
        None \<Rightarrow> write_chunks name rest None (write_chunk name chunk d)
      | Some 0 \<Rightarrow> (Some OSError, d)
      | Some (Suc k) \<Rightarrow> write_chunks name rest (Some k) (write_chunk name chunk d))"

text \<open>Lines 174 to 183: open the file, read the declared length, stream the body. \<open>open\<close>
  raises \<open>ValueError\<close> for a name with a NUL character. A \<open>ValueError\<close> or \<open>OSError\<close>
  leaves the \<open>try\<close> block (its \<open>except\<close> names \<open>RequestException\<close> only); a broken stream is
  caught and gives \<open>False\<close>. What was written stays on disk.\<close>

definition save_body :: "folder \<Rightarrow> string \<Rightarrow> response \<Rightarrow> world \<Rightarrow> (exn + bool) \<times> folder" where
  "save_body d video_name r w =
     (if CHR 0x00 \<in> set video_name then (Inl ValueError, d)
      else if open_fails w then (Inl OSError, d)
      else let d1 = open_wb video_name d in
        if content_length r = BadLength then (Inl ValueError, d1)
        else (case write_chunks video_name (chunks r) (writable w) d1 of
                (Some e, d2) \<Rightarrow> (Inl e, d2)
              | (None, d2) \<Rightarrow> if stream_breaks r then (Inr False, d2) else (Inr True, d2)))"

text \<open>\<open>download_video\<close>: \<open>Inr b\<close> is the returned boolean, \<open>Inl e\<close> an exception that leaves
  the function. The folder is created first when the test saw none; \<open>requests.get\<close> and
  \<open>raise_for_status\<close> raise a \<open>RequestException\<close>, which is caught; the \<open>ValueError\<close> of
  \<open>sanitize_filename\<close> is not.\<close>

definition download_video :: "library \<Rightarrow> filesystem \<Rightarrow> string \<Rightarrow> world \<Rightarrow> (exn + bool) \<times> filesystem" where
  "download_video lib s video_url w =
     (if makedirs_raises s w then (Inl OSError, s)
      else let d = (case s of None \<Rightarrow> [] | Some d0 \<Rightarrow> d0) in
        (case fetch w of
           None \<Rightarrow> (Inr False, Some d)
         | Some r \<Rightarrow>
             if http_error r then (Inr False, Some d)
             else if \<not> py_in ''video'' (case content_type r of None \<Rightarrow> [] | Some t \<Rightarrow> t)
             then (Inr False, Some d)
             else (case sanitize_filename lib video_url of
                     Inl e \<Rightarrow> (Inl e, Some d)
                   | Inr video_name \<Rightarrow>
                       (case save_body d (unused_name (seen w d) video_name) r w of
                          (result, d') \<Rightarrow> (result, Some d')))))"

section \<open>\<open>download_videos_concurrently\<close>\<close>

text \<open>
  A task is a URL with what the network, the disk and the other workers do for it.
  \<open>pool_map\<close> is \<open>executor.map\<close> as the \<open>for\<close> loop reads it: the results of \<open>download_video\<close>
  in the order of the input, the first exception raised in place of its result. The
  effects of the downloads on the folder are taken in input order; what a download's
  checks missed of the other workers' effects is in its world (\<open>folder_check_early\<close>,
  \<open>unseen\<close>). After an exception the model says nothing of the later tasks.
\<close>

fun pool_map :: "library \<Rightarrow> filesystem \<Rightarrow> (string \<times> world) list \<Rightarrow> exn + (bool list \<times> filesystem)" where
  "pool_map lib s [] = Inr ([], s)"
| "pool_map lib s ((video_url, w) # rest) =
     (case download_video lib s video_url w of
        (Inl e, s') \<Rightarrow> Inl e
      | (Inr success, s') \<Rightarrow>
          (case pool_map lib s' rest of
             Inl e \<Rightarrow> Inl e
           | Inr (results, s'') \<Rightarrow> Inr (success # results, s'')))"

text \<open>The \<open>for\<close> loop: \<open>if success: downloaded_count += 1\<close>.\<close>

fun tally :: "bool list \<Rightarrow> nat \<Rightarrow> nat" where
  "tally [] downloaded_count = downloaded_count"
| "tally (success # rest) downloaded_count =
     tally rest (if success then downloaded_count + 1 else downloaded_count)"

definition download_videos_concurrently :: "library \<Rightarrow> filesystem \<Rightarrow> (string \<times> world) list \<Rightarrow> exn + (nat \<times> filesystem)" where
  "download_videos_concurrently lib s selected_videos =
     (case pool_map lib s selected_videos of
        Inl e \<Rightarrow> Inl e
      | Inr (results, s') \<Rightarrow> Inr (tally results 0, s'))"

section \<open>Auxiliary notions for the statements and proofs\<close>

text \<open>The value of a decimal numeral, the inverse of \<open>str\<close>.\<close>

definition digit_val :: "char \<Rightarrow> nat" where
  "digit_val c = of_char c - 48"

definition decimal_val :: "string \<Rightarrow> nat" where
  "decimal_val ds = foldl (\<lambda>a c. 10 * a + digit_val c) 0 ds"

text \<open>The counters from \<open>counter\<close> on whose numbered name exists in the folder.\<close>

definition later_taken :: "folder \<Rightarrow> string \<Rightarrow> string \<Rightarrow> nat \<Rightarrow> nat set" where
  "later_taken d b e counter = {k. counter \<le> k \<and> path_exists d (numbered b e k)}"

text \<open>The values a list of pairs gives to a name, in order.\<close>

definition values_of :: "string \<Rightarrow> (string \<times> string) list \<Rightarrow> string list" where
  "values_of k ps = map snd (filter (\<lambda>p. fst p = k) ps)"

text \<open>A task in which nothing but the network can fail: the folder test is not early,
  \<open>makedirs\<close>, \<open>open\<close> and every \<open>write\<close> work, the \<open>Content-Length\<close> of a response, when
  there is one, is read by \<open>int\<close>, \<open>urlsplit\<close> accepts the URL and the sanitized name has no
  NUL character.\<close>

definition request_errors_only :: "library \<Rightarrow> string \<Rightarrow> world \<Rightarrow> bool" where
  "request_errors_only lib video_url w =
     (\<not> folder_check_early w \<and> \<not> makedirs_fails w \<and> \<not> open_fails w \<and> writable w = None
      \<and> (case fetch w of None \<Rightarrow> True | Some r \<Rightarrow> content_length r \<noteq> BadLength)
      \<and> (case sanitize_filename lib video_url of
            Inl e \<Rightarrow> False
          | Inr video_name \<Rightarrow> CHR 0x00 \<notin> set video_name))"

text \<open>Example responses and worlds for the closed instances below: a video response with
  the given chunks, and a world with the given fetch in which the disk works and the
  checks of the download are up to date.\<close>

definition video_reply :: "string list \<Rightarrow> response" where
  "video_reply cs =
     \<lparr>http_error = False, content_type = Some ''video/mp4'', content_length = NoLength,
      chunks = cs, stream_breaks = False\<rparr>"

definition healthy :: "response option \<Rightarrow> world" where
  "healthy f =
     \<lparr>folder_check_early = False, makedirs_fails = False, fetch = f, unseen = [],
      open_fails = False, writable = None\<rparr>"

section \<open>Decimal numerals are injective\<close>

lemma digit_val_digit: "n < 10 \<Longrightarrow> digit_val (digit n) = n"
proof -
  assume "n < 10"
  then have "n \<in> {0, 1, 2, 3, 4, 5, 6, 7, 8, 9}" by auto
  then show ?thesis by (auto simp: digit_def digit_val_def)
qed

lemma decimal_val_str: "decimal_val (str n) = n"
proof (induction n rule: str.induct)
  case (1 n)
  show ?case
  proof (cases "n < 10")
    case True
    then show ?thesis by (simp add: str.simps [of n] decimal_val_def digit_val_digit)
  next
    case False
    with 1 have "decimal_val (str (n div 10)) = n div 10" by simp
    with False show ?thesis
      by (simp add: str.simps [of n] decimal_val_def digit_val_digit)
  qed
qed

lemma str_inject: "str m = str n \<Longrightarrow> m = n"
  by (metis decimal_val_str)

lemma numbered_inject: "numbered b e m = numbered b e n \<Longrightarrow> m = n"
  by (simp add: numbered_def str_inject)

lemma inj_numbered: "inj (numbered b e)"
  by (rule injI) (rule numbered_inject)

section \<open>The probing loop terminates\<close>

lemma finite_numbered_exists: "finite {k. path_exists d (numbered b e k)}"
proof -
  have "{k. path_exists d (numbered b e k)}
          \<subseteq> numbered b e -` ({[], ''.'', ''..''} \<union> set (map fst d))"
    by (auto simp: path_exists_def)
  moreover have "finite (numbered b e -` ({[], ''.'', ''..''} \<union> set (map fst d)))"
    by (rule finite_vimageI) (simp_all add: inj_numbered)
  ultimately show ?thesis by (rule finite_subset)
qed

lemma finite_later_taken: "finite (later_taken d b e counter)"
  unfolding later_taken_def using finite_numbered_exists [of d b e] by simp

lemma later_taken_step:
  assumes "path_exists d (numbered b e counter)"
  shows "card (later_taken d b e (Suc counter)) < card (later_taken d b e counter)"
proof (rule psubset_card_mono)
  show "finite (later_taken d b e counter)" by (rule finite_later_taken)
  have "counter \<in> later_taken d b e counter" using assms by (simp add: later_taken_def)
  moreover have "counter \<notin> later_taken d b e (Suc counter)" by (simp add: later_taken_def)
  moreover have "later_taken d b e (Suc counter) \<subseteq> later_taken d b e counter"
    by (auto simp: later_taken_def)
  ultimately show "later_taken d b e (Suc counter) \<subset> later_taken d b e counter" by blast
qed

termination probe
proof (relation "measure (\<lambda>(d, b, e, name, counter).
          if path_exists d name then Suc (card (later_taken d b e counter)) else 0)")
  show "wf (measure (\<lambda>(d, b, e, name, counter).
          if path_exists d name then Suc (card (later_taken d b e counter)) else 0))"
    by simp
next
  fix d :: folder and base_name ext video_name :: string and counter :: nat
  assume "path_exists d video_name"
  then show "((d, base_name, ext, numbered base_name ext counter, counter + 1),
              (d, base_name, ext, video_name, counter))
        \<in> measure (\<lambda>(d, b, e, name, counter).
            if path_exists d name then Suc (card (later_taken d b e counter)) else 0)"
    using later_taken_step [of d base_name ext counter] by simp
qed

declare probe.simps [simp del]

section \<open>Sanitization\<close>

lemma strip_pct20_hit: "strip_pct20 (CHR ''%'' # CHR ''2'' # CHR ''0'' # r) = strip_pct20 r"
  by simp

lemma strip_pct20_miss: "take 3 (c # s) \<noteq> ''%20'' \<Longrightarrow> strip_pct20 (c # s) = c # strip_pct20 s"
  by (simp only: strip_pct20.simps if_False)

lemma take3_append_pct20:
  "take 3 (c # s) \<noteq> ''%20'' \<Longrightarrow> take 3 (c # (s @ ''%20'' @ b)) \<noteq> ''%20''"
  by (cases s; cases "tl s"; cases "tl (tl s)") auto

lemma strip_pct20_append: "strip_pct20 (a @ ''%20'' @ b) = strip_pct20 a @ strip_pct20 b"
proof (induction a rule: strip_pct20.induct)
  case 1
  show ?case by simp
next
  case (2 c s)
  show ?case
  proof (cases "take 3 (c # s) = ''%20''")
    case True
    then obtain r where s: "s = CHR ''2'' # CHR ''0'' # r" and c: "c = CHR ''%''"
      by (cases s; cases "tl s") auto
    from 2(1) [OF True] s have "strip_pct20 (r @ ''%20'' @ b) = strip_pct20 r @ strip_pct20 b"
      by simp
    then show ?thesis
      unfolding s c append_Cons strip_pct20_hit .
  next
    case False
    have "strip_pct20 (c # (s @ ''%20'' @ b)) = c # strip_pct20 (s @ ''%20'' @ b)"
      by (rule strip_pct20_miss) (rule take3_append_pct20 [OF False])
    moreover have "(c # s) @ ''%20'' @ b = c # (s @ ''%20'' @ b)"
      by (simp only: append_Cons)
    ultimately have "strip_pct20 ((c # s) @ ''%20'' @ b) = c # strip_pct20 (s @ ''%20'' @ b)"
      by (simp only:)
    also have "\<dots> = c # (strip_pct20 s @ strip_pct20 b)"
      using 2(2) [OF False] by simp
    also have "\<dots> = strip_pct20 (c # s) @ strip_pct20 b"
      unfolding strip_pct20_miss [OF False] by simp
    finally show ?thesis .
  qed
qed

lemma sub_forbidden_safe: "set (sub_forbidden s) \<inter> forbidden = {}"
proof -
  have "CHR ''_'' \<notin> forbidden" by (simp add: forbidden_def)
  then show ?thesis by (auto simp: sub_forbidden_def)
qed

text \<open>
  Claim C4. \<open>sanitize_filename\<close> cleans the filename hint in two steps: every \<open>%20\<close> is
  removed, nothing put in its place (an occurrence splits the hint into two parts that are
  stripped on their own and joined), then each of the characters \<open>< > : " / \ | ? *\<close> is
  replaced by an underscore. The result holds none of those characters, for every hint and,
  whenever \<open>sanitize_filename\<close> returns, for every URL; the hint \<open>my:clip?.mp4\<close> becomes
  \<open>my_clip_.mp4\<close>.
\<close>

theorem sanitize_strips_and_replaces:
  "sanitize_filename lib url
     = (case filename_hint lib url of Inl e \<Rightarrow> Inl e | Inr hint \<Rightarrow> Inr (clean hint))
   \<and> clean hint = map (\<lambda>c. if c \<in> forbidden then CHR ''_'' else c) (strip_pct20 hint)
   \<and> strip_pct20 (a @ ''%20'' @ b) = strip_pct20 a @ strip_pct20 b
   \<and> set (clean hint) \<inter> forbidden = {}
   \<and> (sanitize_filename lib url = Inr name \<longrightarrow> set name \<inter> forbidden = {})
   \<and> clean ''my:clip?.mp4'' = ''my_clip_.mp4''"
proof -
  have 1: "sanitize_filename lib url
     = (case filename_hint lib url of Inl e \<Rightarrow> Inl e | Inr hint \<Rightarrow> Inr (clean hint))"
    by (simp add: sanitize_filename_def)
  have 2: "clean hint = map (\<lambda>c. if c \<in> forbidden then CHR ''_'' else c) (strip_pct20 hint)"
    by (simp add: clean_def sub_forbidden_def)
  have 3: "\<And>h. set (clean h) \<inter> forbidden = {}"
    unfolding clean_def by (rule sub_forbidden_safe)
  have 4: "clean ''my:clip?.mp4'' = ''my_clip_.mp4''"
    by (simp add: clean_def sub_forbidden_def forbidden_def)
  have 5: "sanitize_filename lib url = Inr name \<longrightarrow> set name \<inter> forbidden = {}"
    using 3 by (auto simp: sanitize_filename_def split: sum.splits)
  from 1 2 3 [of hint] 4 5 strip_pct20_append [of a b]
  show ?thesis by (simp only: simp_thms)
qed

theorem sanitize_strips_and_replaces_witness:
  "\<forall>lib. sanitize_filename lib ''http://x/a/my%20clip<1>.mp4'' = Inr ''myclip_1_.mp4''
     \<and> clean ''my%20clip<1>.mp4'' = ''myclip_1_.mp4''
     \<and> strip_pct20 (''my'' @ ''%20'' @ ''clip'') = ''myclip''
     \<and> set ''myclip_1_.mp4'' \<inter> forbidden = {}"
proof
  fix lib
  have a: "sanitize_filename lib ''http://x/a/my%20clip<1>.mp4'' = Inr ''myclip_1_.mp4''"
    by code_simp
  from sanitize_strips_and_replaces
    [of lib "''http://x/a/my%20clip<1>.mp4''" "''my%20clip<1>.mp4''" "''my''" "''clip''"
      "''myclip_1_.mp4''"] a
  show "sanitize_filename lib ''http://x/a/my%20clip<1>.mp4'' = Inr ''myclip_1_.mp4''
     \<and> clean ''my%20clip<1>.mp4'' = ''myclip_1_.mp4''
     \<and> strip_pct20 (''my'' @ ''%20'' @ ''clip'') = ''myclip''
     \<and> set ''myclip_1_.mp4'' \<inter> forbidden = {}"
    by (simp add: forbidden_def)
qed

section \<open>The probing loop\<close>

lemma probe_unused: "\<not> path_exists d (fst (probe d b e name c))"
proof (induction d b e name c rule: probe.induct)
  case (1 d b e name c)
  then show ?case by (cases "path_exists d name") (simp_all add: probe.simps [of d b e name c])
qed

lemma probe_free: "\<not> path_exists d name \<Longrightarrow> probe d b e name c = (name, c)"
  by (simp add: probe.simps [of d b e name c])

lemma probe_first_unused:
  "path_exists d name \<Longrightarrow>
     \<exists>k\<ge>c. probe d b e name c = (numbered b e k, Suc k)
          \<and> (\<forall>j. c \<le> j \<and> j < k \<longrightarrow> path_exists d (numbered b e j))"
proof (induction d b e name c rule: probe.induct)
  case (1 d b e name c)
  show ?case
  proof (cases "path_exists d (numbered b e c)")
    case False
    with 1(2) have "probe d b e name c = (numbered b e c, Suc c)"
      by (simp add: probe.simps [of d b e name c] probe_free)
    then show ?thesis by auto
  next
    case True
    from 1(1) [OF 1(2) True] obtain k where k: "c + 1 \<le> k"
      "probe d b e (numbered b e c) (c + 1) = (numbered b e k, Suc k)"
      "\<forall>j. c + 1 \<le> j \<and> j < k \<longrightarrow> path_exists d (numbered b e j)"
      by blast
    have "probe d b e name c = (numbered b e k, Suc k)"
      using 1(2) k(2) by (simp add: probe.simps [of d b e name c])
    moreover have "\<forall>j. c \<le> j \<and> j < k \<longrightarrow> path_exists d (numbered b e j)"
    proof (intro allI impI)
      fix j assume "c \<le> j \<and> j < k"
      then consider "j = c" | "c + 1 \<le> j \<and> j < k" by linarith
      then show "path_exists d (numbered b e j)" using True k(3) by cases auto
    qed
    ultimately show ?thesis using k(1) by (intro exI [of _ k]) simp
  qed
qed

lemma numbered_in_folder:
  "path_exists d (numbered b e k) \<Longrightarrow> numbered b e k \<in> set (map fst d)"
proof -
  have "CHR ''_'' \<in> set (numbered b e k)" by (simp add: numbered_def)
  then have "numbered b e k \<notin> {[], ''.'', ''..''}" by auto
  moreover assume "path_exists d (numbered b e k)"
  ultimately show ?thesis by (simp add: path_exists_def)
qed

lemma card_later_taken: "card (later_taken d b e c) \<le> length d"
proof -
  have "numbered b e ` later_taken d b e c \<subseteq> set (map fst d)"
    by (auto simp: later_taken_def dest: numbered_in_folder)
  then have "card (numbered b e ` later_taken d b e c) \<le> card (set (map fst d))"
    by (intro card_mono) simp_all
  moreover have "card (numbered b e ` later_taken d b e c) = card (later_taken d b e c)"
    by (rule card_image) (meson inj_numbered inj_on_subset subset_UNIV)
  moreover have "card (set (map fst d)) \<le> length d"
    using card_length [of "map fst d"] by simp
  ultimately show ?thesis by linarith
qed

lemma probe_counter:
  "snd (probe d b e name c)
     \<le> c + (if path_exists d name then Suc (card (later_taken d b e c)) else 0)"
proof (induction d b e name c rule: probe.induct)
  case (1 d b e name c)
  show ?case
  proof (cases "path_exists d name")
    case False
    then show ?thesis by (simp add: probe_free)
  next
    case True
    have eq: "probe d b e name c = probe d b e (numbered b e c) (c + 1)"
      using True by (simp add: probe.simps [of d b e name c])
    show ?thesis
    proof (cases "path_exists d (numbered b e c)")
      case False
      then show ?thesis using True eq by (simp add: probe_free)
    next
      case T2: True
      from 1 [OF True] T2
      have "snd (probe d b e (numbered b e c) (c + 1)) \<le> c + 1 + Suc (card (later_taken d b e (c + 1)))"
        by simp
      moreover have "card (later_taken d b e (Suc c)) < card (later_taken d b e c)"
        by (rule later_taken_step [OF T2])
      ultimately show ?thesis using True eq by simp
    qed
  qed
qed

text \<open>
  Claim C8. The loop that looks for an unused name stops for every folder: its entries are
  a finite list, the numbered names are pairwise distinct, so an unused one is reached.
  Started with \<open>counter\<close>, the loop runs its body at most once more than the folder has
  entries (the counter it ends with is the start value plus the number of runs), and the
  name it ends with does not exist in the folder.
\<close>

theorem probe_bounded:
  "snd (probe d base_name ext video_name counter) \<le> counter + length d + 1
   \<and> \<not> path_exists d (fst (probe d base_name ext video_name counter))
   \<and> \<not> path_exists d (unused_name d video_name)"
proof -
  have "snd (probe d base_name ext video_name counter) \<le> counter + length d + 1"
    using probe_counter [of d base_name ext video_name counter]
      card_later_taken [of d base_name ext counter]
    by (simp split: if_splits)
  moreover have "\<not> path_exists d (unused_name d video_name)"
    by (simp add: unused_name_def probe_unused split: prod.split)
  ultimately show ?thesis by (simp add: probe_unused)
qed

theorem probe_bounded_witness:
  "probe [(''video.mp4'', ''a''), (''video_1.mp4'', ''b'')] ''video'' ''.mp4'' ''video.mp4'' 1
     = (''video_2.mp4'', 3)
   \<and> \<not> path_exists [(''video.mp4'', ''a''), (''video_1.mp4'', ''b'')] ''video_2.mp4''"
  using probe_bounded [of "[(''video.mp4'', ''a''), (''video_1.mp4'', ''b'')]" "''video''" "''.mp4''" "''video.mp4''" 1]
  by (simp add: probe.simps path_exists_def numbered_def str.simps digit_def)

section \<open>Choosing a name that does not collide\<close>

lemma unused_name_free: "\<not> path_exists d name \<Longrightarrow> unused_name d name = name"
  by (simp add: unused_name_def)

lemma unused_name_taken:
  assumes "path_exists d name"
  shows "\<exists>k\<ge>1. unused_name d name = numbered (fst (splitext name)) (snd (splitext name)) k
          \<and> (\<forall>j. 1 \<le> j \<and> j < k \<longrightarrow>
                path_exists d (numbered (fst (splitext name)) (snd (splitext name)) j))"
proof -
  obtain b e where be: "splitext name = (b, e)" by (cases "splitext name")
  from probe_first_unused [OF assms, of 1 b e] obtain k where
    "1 \<le> k" "probe d b e name 1 = (numbered b e k, Suc k)"
    "\<forall>j. 1 \<le> j \<and> j < k \<longrightarrow> path_exists d (numbered b e j)"
    by blast
  then show ?thesis using assms be by (intro exI [of _ k]) (simp add: unused_name_def)
qed

lemma unused_name_unused: "\<not> path_exists d (unused_name d name)"
  by (simp add: unused_name_def probe_unused split: prod.split)

lemma map_of_open_wb: "map_of (open_wb name d) n = (if n = name then Some [] else map_of d n)"
  by (simp add: open_wb_def update_conv')

lemma map_of_write_chunk_other: "n \<noteq> name \<Longrightarrow> map_of (write_chunk name c d) n = map_of d n"
  by (simp add: write_chunk_def update_conv')

lemma write_chunks_other:
  "n \<noteq> name \<Longrightarrow> map_of (snd (write_chunks name cs lim d)) n = map_of d n"
proof (induction cs arbitrary: lim d)
  case Nil
  show ?case by simp
next
  case (Cons c cs)
  then show ?case
    by (cases lim; cases "the lim") (simp_all add: map_of_write_chunk_other)
qed

lemma save_body_other:
  "n \<noteq> name \<Longrightarrow> map_of (snd (save_body d name r w)) n = map_of d n"
proof -
  assume n: "n \<noteq> name"
  have "map_of (snd (write_chunks name (chunks r) (writable w) (open_wb name d))) n = map_of d n"
    using n by (simp add: write_chunks_other map_of_open_wb)
  then show ?thesis
    using n by (auto simp: save_body_def Let_def map_of_open_wb split: prod.split option.split)
qed

lemma map_of_path_exists: "map_of d n = Some c \<Longrightarrow> path_exists d n"
  by (auto simp: path_exists_def dest: map_of_SomeD intro: rev_image_eqI)

lemma seen_all: "unseen w = [] \<Longrightarrow> seen w d = d"
  by (simp add: seen_def)

lemma download_video_keeps:
  assumes "map_of (case s of None \<Rightarrow> [] | Some d0 \<Rightarrow> d0) n = Some c" and "unseen w = []"
  shows "\<exists>d'. snd (download_video lib s url w) = Some d' \<and> map_of d' n = Some c"
proof -
  from assms obtain d where s: "s = Some d" and d: "map_of d n = Some c"
    by (cases s) auto
  have "n \<noteq> unused_name d name" for name
    using map_of_path_exists [OF d] unused_name_unused [of d name] by auto
  then have "\<And>r name. map_of (snd (save_body d (unused_name d name) r w)) n = Some c"
    using d by (simp add: save_body_other)
  then show ?thesis
    using s d assms(2)
    by (auto simp: download_video_def Let_def seen_all split: option.split prod.split sum.split)
      (metis snd_conv)
qed

text \<open>
  What holds of claim C3 in the code. When the path of the sanitized name exists in the
  folder the download sees, the name chosen is \<open>stem_k.ext\<close> for the first \<open>k\<close> from 1 whose
  path does not exist (stem and extension as \<open>os.path.splitext\<close> gives them); otherwise it
  is the sanitized name. With \<open>video.mp4\<close> present the hint \<open>video.mp4\<close> gives
  \<open>video_1.mp4\<close>, and with both present \<open>video_2.mp4\<close>. A download whose existence checks
  missed nothing leaves every file that was in the folder with the content it had.
\<close>

lemma collision_suffixing:
  "(\<not> path_exists d video_name \<longrightarrow> unused_name d video_name = video_name)
   \<and> (path_exists d video_name \<longrightarrow>
        (\<exists>k\<ge>1. unused_name d video_name
                 = numbered (fst (splitext video_name)) (snd (splitext video_name)) k
            \<and> (\<forall>j. 1 \<le> j \<and> j < k \<longrightarrow>
                  path_exists d
                    (numbered (fst (splitext video_name)) (snd (splitext video_name)) j))))
   \<and> \<not> path_exists d (unused_name d video_name)
   \<and> unused_name [(''video.mp4'', a)] ''video.mp4'' = ''video_1.mp4''
   \<and> unused_name [(''video.mp4'', a), (''video_1.mp4'', b)] ''video.mp4'' = ''video_2.mp4''
   \<and> (\<forall>n c. unseen w = [] \<and> map_of (case s of None \<Rightarrow> [] | Some d0 \<Rightarrow> d0) n = Some c \<longrightarrow>
         (\<exists>d'. snd (download_video lib s url w) = Some d' \<and> map_of d' n = Some c))"
proof -
  have 1: "unused_name [(''video.mp4'', a)] ''video.mp4'' = ''video_1.mp4''"
    by (simp add: unused_name_def path_exists_def splitext_def rfind_def probe.simps
        numbered_def str.simps digit_def)
  have 2: "unused_name [(''video.mp4'', a), (''video_1.mp4'', b)] ''video.mp4'' = ''video_2.mp4''"
    by (simp add: unused_name_def path_exists_def splitext_def rfind_def probe.simps
        numbered_def str.simps digit_def)
  show ?thesis
    using 1 2 unused_name_free [of d video_name] unused_name_taken [of d video_name]
      unused_name_unused [of d video_name] download_video_keeps [of s _ _ w lib url]
    by (simp only: simp_thms) blast
qed

text \<open>
  Claim C3 fails in the code. The existence check and the creation of the file are two
  steps, and the downloads run on the workers of a pool with nothing to keep one worker
  out between the two steps of another. Input: the two URLs \<open>http://a/video.mp4\<close> and
  \<open>http://b/video.mp4\<close>, an empty folder, two video responses with the bodies \<open>first\<close> and
  \<open>second\<close>; the second download checks for \<open>video.mp4\<close> before the first creates it. Both
  choose \<open>video.mp4\<close>; the second \<open>open(..., "wb")\<close> truncates the file the first one wrote,
  both report success, and of the two downloads one file is left.
\<close>

theorem check_then_create_race:
  "\<forall>lib.
     download_video lib None ''http://a/video.mp4'' (healthy (Some (video_reply [''first''])))
       = (Inr True, Some [(''video.mp4'', ''first'')])
     \<and> download_video lib (Some [(''video.mp4'', ''first'')]) ''http://b/video.mp4''
          ((healthy (Some (video_reply [''second''])))\<lparr>unseen := [''video.mp4'']\<rparr>)
       = (Inr True, Some [(''video.mp4'', ''second'')])
     \<and> download_videos_concurrently lib None
          [(''http://a/video.mp4'', healthy (Some (video_reply [''first'']))),
           (''http://b/video.mp4'',
             (healthy (Some (video_reply [''second''])))\<lparr>unseen := [''video.mp4'']\<rparr>)]
       = Inr (2, Some [(''video.mp4'', ''second'')])"
proof
  fix lib
  show "download_video lib None ''http://a/video.mp4'' (healthy (Some (video_reply [''first''])))
       = (Inr True, Some [(''video.mp4'', ''first'')])
     \<and> download_video lib (Some [(''video.mp4'', ''first'')]) ''http://b/video.mp4''
          ((healthy (Some (video_reply [''second''])))\<lparr>unseen := [''video.mp4'']\<rparr>)
       = (Inr True, Some [(''video.mp4'', ''second'')])
     \<and> download_videos_concurrently lib None
          [(''http://a/video.mp4'', healthy (Some (video_reply [''first'']))),
           (''http://b/video.mp4'',
             (healthy (Some (video_reply [''second''])))\<lparr>unseen := [''video.mp4'']\<rparr>)]
       = Inr (2, Some [(''video.mp4'', ''second'')])"
    by code_simp
qed

section \<open>The empty hint\<close>

lemma numbered_nonempty: "numbered b e k \<noteq> []"
  by (simp add: numbered_def)

lemma splitext_empty: "splitext [] = ([], [])"
  by (simp add: splitext_def rfind_def)

lemma path_exists_empty: "path_exists d []"
  by (simp add: path_exists_def)

text \<open>
  Claim C7. The name \<open>download_video\<close> writes to is never empty. When the hint sanitizes
  to the empty string (a URL without an \<open>f\<close> parameter whose path ends in \<open>/\<close>, such as
  \<open>http://x/dir/\<close>), the joined path is the download folder itself, which exists, so the
  collision loop runs with the empty stem and extension and the name becomes \<open>_k\<close> for the
  first \<open>k\<close> from 1 that is not in the folder: \<open>_1\<close> in an empty folder.
\<close>

theorem resolved_name_nonempty:
  "unused_name d name \<noteq> []
   \<and> (sanitize_filename lib url = Inr [] \<longrightarrow>
        (\<exists>k\<ge>1. unused_name d [] = ''_'' @ str k
            \<and> (\<forall>j. 1 \<le> j \<and> j < k \<longrightarrow> ''_'' @ str j \<in> set (map fst d))))
   \<and> sanitize_filename lib ''http://x/dir/'' = Inr []
   \<and> unused_name [] [] = ''_1''"
proof -
  have 1: "unused_name d name \<noteq> []"
    using unused_name_unused [of d name] path_exists_empty [of d] by auto
  have 2: "\<exists>k\<ge>1. unused_name d [] = ''_'' @ str k
            \<and> (\<forall>j. 1 \<le> j \<and> j < k \<longrightarrow> ''_'' @ str j \<in> set (map fst d))"
  proof -
    from unused_name_taken [OF path_exists_empty, of d] obtain k where
      k: "1 \<le> k" "unused_name d [] = numbered [] [] k"
         "\<forall>j. 1 \<le> j \<and> j < k \<longrightarrow> path_exists d (numbered [] [] j)"
      by (auto simp: splitext_empty)
    have "\<forall>j. 1 \<le> j \<and> j < k \<longrightarrow> ''_'' @ str j \<in> set (map fst d)"
      using k(3) numbered_in_folder [of d "[]" "[]"] by (simp add: numbered_def)
    with k(1,2) show ?thesis by (intro exI [of _ k]) (simp add: numbered_def)
  qed
  have 3: "sanitize_filename lib ''http://x/dir/'' = Inr []"
    by code_simp
  have 4: "unused_name [] [] = ''_1''"
    by code_simp
  from 1 2 3 4 show ?thesis by blast
qed

theorem resolved_name_nonempty_witness:
  "\<forall>lib. sanitize_filename lib ''http://x/dir/?id=9'' = Inr []
     \<and> unused_name [(''_1'', ''old'')] [] = ''_2''
     \<and> download_video lib None ''http://x/dir/?id=9'' (healthy (Some (video_reply [''ab'', ''cd''])))
         = (Inr True, Some [(''_1'', ''abcd'')])"
proof
  fix lib
  have a: "sanitize_filename lib ''http://x/dir/?id=9'' = Inr []" by code_simp
  have b: "unused_name [(''_1'', ''old'')] [] = ''_2''" by code_simp
  have c: "download_video lib None ''http://x/dir/?id=9'' (healthy (Some (video_reply [''ab'', ''cd''])))
         = (Inr True, Some [(''_1'', ''abcd'')])" by code_simp
  from resolved_name_nonempty [of "[(''_1'', ''old'')]" "[]" lib "''http://x/dir/?id=9''"] a
  have "unused_name [(''_1'', ''old'')] [] \<noteq> []"
    by blast
  with a b c show "sanitize_filename lib ''http://x/dir/?id=9'' = Inr []
     \<and> unused_name [(''_1'', ''old'')] [] = ''_2''
     \<and> download_video lib None ''http://x/dir/?id=9'' (healthy (Some (video_reply [''ab'', ''cd''])))
         = (Inr True, Some [(''_1'', ''abcd'')])"
    by simp
qed

section \<open>The filename hint\<close>

lemma map_of_parse_qs_add:
  "map_of (parse_qs_add acc (n, v)) k =
     (if k = n then Some ((case map_of acc n of None \<Rightarrow> [] | Some vs \<Rightarrow> vs) @ [v])
      else map_of acc k)"
  by (auto simp: update_conv' map_add_def split: option.split)

lemma map_of_foldl_parse_qs_add:
  "map_of (foldl parse_qs_add acc ps) k =
     (if values_of k ps = [] then map_of acc k
      else Some ((case map_of acc k of None \<Rightarrow> [] | Some vs \<Rightarrow> vs) @ values_of k ps))"
proof (induction ps arbitrary: acc)
  case Nil
  show ?case by (simp add: values_of_def)
next
  case (Cons p ps)
  obtain n v where p: "p = (n, v)" by (cases p)
  show ?case
    unfolding p foldl_Cons Cons.IH map_of_parse_qs_add
    by (simp add: values_of_def)
qed

lemma map_of_parse_qs:
  "map_of (parse_qs lib qs) k =
     (if values_of k (parse_qsl lib qs) = [] then None else Some (values_of k (parse_qsl lib qs)))"
  by (simp add: parse_qs_def map_of_foldl_parse_qs_add)

lemma map_of_values_of:
  "map_of ps k = (case values_of k ps of [] \<Rightarrow> None | v # _ \<Rightarrow> Some v)"
  by (induction ps) (auto simp: values_of_def)

lemma filename_hint_cases:
  "filename_hint lib url =
     (case urlsplit lib url of
        Inl e \<Rightarrow> Inl e
      | Inr p \<Rightarrow>
          (case map_of (parse_qsl lib (query p)) ''f'' of
             Some v \<Rightarrow> Inr v
           | None \<Rightarrow> Inr (basename (path p))))"
  by (simp add: filename_hint_def Let_def map_of_parse_qs map_of_values_of
      split: list.split sum.split)

lemma split_once_Some:
  "split_once c s = Some (a, b) \<longleftrightarrow> s = a @ c # b \<and> c \<notin> set a"
proof
  assume "split_once c s = Some (a, b)"
  then have c: "c \<in> set s" and a: "a = takeWhile (\<lambda>x. x \<noteq> c) s"
    and b: "b = tl (dropWhile (\<lambda>x. x \<noteq> c) s)"
    by (auto simp: split_once_def split: if_splits)
  from c have "dropWhile (\<lambda>x. x \<noteq> c) s \<noteq> []" by (simp add: dropWhile_eq_Nil_conv)
  moreover then have "hd (dropWhile (\<lambda>x. x \<noteq> c) s) = c"
    using hd_dropWhile [of "\<lambda>x. x \<noteq> c" s] by simp
  ultimately have "dropWhile (\<lambda>x. x \<noteq> c) s = c # b"
    unfolding b by (cases "dropWhile (\<lambda>x. x \<noteq> c) s") auto
  then have "s = a @ c # b" unfolding a by (metis takeWhile_dropWhile_id)
  moreover have "c \<notin> set a" unfolding a by (auto dest: set_takeWhileD)
  ultimately show "s = a @ c # b \<and> c \<notin> set a" by simp
next
  assume h: "s = a @ c # b \<and> c \<notin> set a"
  then have ne: "\<And>x. x \<in> set a \<Longrightarrow> x \<noteq> c" by auto
  have "takeWhile (\<lambda>x. x \<noteq> c) (a @ c # b) = a"
    using takeWhile_append2 [of a "\<lambda>x. x \<noteq> c" "c # b"] ne by simp
  moreover have "dropWhile (\<lambda>x. x \<noteq> c) (a @ c # b) = c # b"
    using dropWhile_append2 [of a "\<lambda>x. x \<noteq> c" "c # b"] ne by simp
  ultimately show "split_once c s = Some (a, b)"
    using h by (simp add: split_once_def)
qed

lemma parse_field_iff:
  "(n, v) \<in> set (parse_field lib fld) \<longleftrightarrow>
     (\<exists>n0 v0. fld = n0 @ ''='' @ v0 \<and> CHR ''='' \<notin> set n0 \<and> v0 \<noteq> []
        \<and> n = unquote lib (plus_to_space n0) \<and> v = unquote lib (plus_to_space v0))"
proof (cases "split_once CHR ''='' fld")
  case None
  then have "CHR ''='' \<notin> set fld" by (simp add: split_once_def split: if_splits)
  then show ?thesis using None by (auto simp: parse_field_def)
next
  case (Some p)
  obtain a b where p: "p = (a, b)" by (cases p)
  from Some p have ab: "fld = a @ CHR ''='' # b" "CHR ''='' \<notin> set a"
    by (simp_all add: split_once_Some)
  have uniq: "n0 = a \<and> v0 = b" if "fld = n0 @ ''='' @ v0" "CHR ''='' \<notin> set n0" for n0 v0
  proof -
    from that have "split_once CHR ''='' fld = Some (n0, v0)" by (simp add: split_once_Some)
    with Some p show ?thesis by simp
  qed
  show ?thesis
  proof
    assume "(n, v) \<in> set (parse_field lib fld)"
    then have "b \<noteq> []" "n = unquote lib (plus_to_space a)" "v = unquote lib (plus_to_space b)"
      using Some p by (auto simp: parse_field_def split: if_splits)
    with ab show "\<exists>n0 v0. fld = n0 @ ''='' @ v0 \<and> CHR ''='' \<notin> set n0 \<and> v0 \<noteq> []
        \<and> n = unquote lib (plus_to_space n0) \<and> v = unquote lib (plus_to_space v0)"
      by (intro exI [of _ a] exI [of _ b]) simp
  next
    assume "\<exists>n0 v0. fld = n0 @ ''='' @ v0 \<and> CHR ''='' \<notin> set n0 \<and> v0 \<noteq> []
        \<and> n = unquote lib (plus_to_space n0) \<and> v = unquote lib (plus_to_space v0)"
    then obtain n0 v0 where h: "fld = n0 @ ''='' @ v0" "CHR ''='' \<notin> set n0" "v0 \<noteq> []"
      "n = unquote lib (plus_to_space n0)" "v = unquote lib (plus_to_space v0)" by blast
    from uniq [OF h(1,2)] h(3,4,5) ab(1) Some p
    show "(n, v) \<in> set (parse_field lib fld)" by (auto simp: parse_field_def)
  qed
qed

lemma parse_qsl_iff:
  "(n, v) \<in> set (parse_qsl lib qs) \<longleftrightarrow>
     (\<exists>fld\<in>set (split_all CHR ''&'' qs). \<exists>n0 v0.
        fld = n0 @ ''='' @ v0 \<and> CHR ''='' \<notin> set n0 \<and> v0 \<noteq> []
        \<and> n = unquote lib (plus_to_space n0) \<and> v = unquote lib (plus_to_space v0))"
  unfolding parse_qsl_def set_concat set_map UN_iff bex_simps(7) parse_field_iff ..

text \<open>
  Claim C5 (as amended). For a URL that \<open>urlsplit\<close> accepts, \<open>parse_qsl\<close> keeps the fields
  \<open>name=value\<close> of the query whose value is not empty, unquoted. When one of them is named
  \<open>f\<close>, the hint is the value of the first such field, whatever the path is; when none is,
  the hint is what follows the last \<open>/\<close> of the path. \<open>http://x/get?f=clip.mp4&id=9\<close> gives
  \<open>clip.mp4\<close>. For a URL that \<open>urlsplit\<close> refuses, \<open>sanitize_filename\<close> raises its
  \<open>ValueError\<close>.
\<close>

theorem query_parameter_precedence:
  "(urlsplit lib url = Inr p \<and> map_of (parse_qsl lib (query p)) ''f'' = Some v \<longrightarrow>
      filename_hint lib url = Inr v \<and> sanitize_filename lib url = Inr (clean v))
   \<and> (urlsplit lib url = Inr p \<and> map_of (parse_qsl lib (query p)) ''f'' = None \<longrightarrow>
        filename_hint lib url = Inr (basename (path p))
        \<and> sanitize_filename lib url = Inr (clean (basename (path p))))
   \<and> (urlsplit lib url = Inl e \<longrightarrow>
        filename_hint lib url = Inl e \<and> sanitize_filename lib url = Inl e)
   \<and> ((n, v') \<in> set (parse_qsl lib qs) \<longleftrightarrow>
        (\<exists>fld\<in>set (split_all CHR ''&'' qs). \<exists>n0 v0.
           fld = n0 @ ''='' @ v0 \<and> CHR ''='' \<notin> set n0 \<and> v0 \<noteq> []
           \<and> n = unquote lib (plus_to_space n0) \<and> v' = unquote lib (plus_to_space v0)))
   \<and> filename_hint lib ''http://x/get?f=clip.mp4&id=9'' = Inr ''clip.mp4''
   \<and> sanitize_filename lib ''http://x/get?f=clip.mp4&id=9'' = Inr ''clip.mp4''"
proof -
  have 1: "filename_hint lib ''http://x/get?f=clip.mp4&id=9'' = Inr ''clip.mp4''" by code_simp
  have 2: "sanitize_filename lib ''http://x/get?f=clip.mp4&id=9'' = Inr ''clip.mp4''"
    by code_simp
  have 3: "urlsplit lib url = Inr p \<and> map_of (parse_qsl lib (query p)) ''f'' = Some v \<longrightarrow>
      filename_hint lib url = Inr v \<and> sanitize_filename lib url = Inr (clean v)"
    by (simp add: filename_hint_cases sanitize_filename_def)
  have 4: "urlsplit lib url = Inr p \<and> map_of (parse_qsl lib (query p)) ''f'' = None \<longrightarrow>
        filename_hint lib url = Inr (basename (path p))
        \<and> sanitize_filename lib url = Inr (clean (basename (path p)))"
    by (simp add: filename_hint_cases sanitize_filename_def)
  have 5: "urlsplit lib url = Inl e \<longrightarrow>
        filename_hint lib url = Inl e \<and> sanitize_filename lib url = Inl e"
    by (simp add: filename_hint_cases sanitize_filename_def)
  from 1 2 3 4 5 parse_qsl_iff [of n v' lib qs] show ?thesis by (simp only: simp_thms)
qed

theorem query_parameter_precedence_witness:
  "\<forall>lib.
     (\<exists>p. urlsplit lib ''http://x/a/b.mp4?id=9&f=my+clip.mp4&f=other'' = Inr p
          \<and> map_of (parse_qsl lib (query p)) ''f'' = Some ''my clip.mp4'')
     \<and> filename_hint lib ''http://x/a/b.mp4?id=9&f=my+clip.mp4&f=other'' = Inr ''my clip.mp4''
     \<and> (\<exists>p. urlsplit lib ''http://x/a/b.mp4?id=9'' = Inr p
          \<and> map_of (parse_qsl lib (query p)) ''f'' = None \<and> basename (path p) = ''b.mp4'')
     \<and> filename_hint lib ''http://x/a/b.mp4?id=9'' = Inr ''b.mp4''
     \<and> urlsplit lib ''http://[x/get?f=clip.mp4'' = Inl ValueError
     \<and> sanitize_filename lib ''http://[x/get?f=clip.mp4'' = Inl ValueError"
proof
  fix lib
  let ?p1 = "\<lparr>scheme = ''http'', netloc = ''x'', path = ''/a/b.mp4'',
              query = ''id=9&f=my+clip.mp4&f=other'', fragment = []\<rparr>"
  let ?p2 = "\<lparr>scheme = ''http'', netloc = ''x'', path = ''/a/b.mp4'',
              query = ''id=9'', fragment = []\<rparr>"
  have a1: "urlsplit lib ''http://x/a/b.mp4?id=9&f=my+clip.mp4&f=other'' = Inr ?p1" by code_simp
  have a2: "map_of (parse_qsl lib (query ?p1)) ''f'' = Some ''my clip.mp4''" by code_simp
  have b1: "urlsplit lib ''http://x/a/b.mp4?id=9'' = Inr ?p2" by code_simp
  have b2: "map_of (parse_qsl lib (query ?p2)) ''f'' = None" by code_simp
  have b3: "basename (path ?p2) = ''b.mp4''" by code_simp
  have c: "urlsplit lib ''http://[x/get?f=clip.mp4'' = Inl ValueError" by code_simp
  from query_parameter_precedence
    [of lib "''http://x/a/b.mp4?id=9&f=my+clip.mp4&f=other''" ?p1 "''my clip.mp4''"] a1 a2
  have h1: "filename_hint lib ''http://x/a/b.mp4?id=9&f=my+clip.mp4&f=other'' = Inr ''my clip.mp4''"
    by blast
  from query_parameter_precedence [of lib "''http://x/a/b.mp4?id=9''" ?p2] b1 b2 b3
  have h2: "filename_hint lib ''http://x/a/b.mp4?id=9'' = Inr ''b.mp4''" by simp
  from query_parameter_precedence [of lib "''http://[x/get?f=clip.mp4''" _ _ ValueError] c
  have h3: "sanitize_filename lib ''http://[x/get?f=clip.mp4'' = Inl ValueError" by blast
  from a1 a2 b1 b2 b3 c h1 h2 h3
  show "(\<exists>p. urlsplit lib ''http://x/a/b.mp4?id=9&f=my+clip.mp4&f=other'' = Inr p
          \<and> map_of (parse_qsl lib (query p)) ''f'' = Some ''my clip.mp4'')
     \<and> filename_hint lib ''http://x/a/b.mp4?id=9&f=my+clip.mp4&f=other'' = Inr ''my clip.mp4''
     \<and> (\<exists>p. urlsplit lib ''http://x/a/b.mp4?id=9'' = Inr p
          \<and> map_of (parse_qsl lib (query p)) ''f'' = None \<and> basename (path p) = ''b.mp4'')
     \<and> filename_hint lib ''http://x/a/b.mp4?id=9'' = Inr ''b.mp4''
     \<and> urlsplit lib ''http://[x/get?f=clip.mp4'' = Inl ValueError
     \<and> sanitize_filename lib ''http://[x/get?f=clip.mp4'' = Inl ValueError"
    by blast
qed

text \<open>
  Claim C5 as stated fails for a parameter \<open>f\<close> with an empty value: \<open>parse_qs\<close> drops
  it (\<open>keep_blank_values\<close> is off), the key is absent, and the hint is the path segment.
  It also fails for a URL with a parameter \<open>f\<close> that \<open>urlsplit\<close> refuses: no hint is
  computed, \<open>sanitize_filename\<close> raises \<open>ValueError\<close>.
\<close>

theorem blank_f_falls_back_to_path:
  "\<forall>lib.
     urlsplit lib ''http://x/get?f=&id=9''
       = Inr \<lparr>scheme = ''http'', netloc = ''x'', path = ''/get'', query = ''f=&id=9'',
              fragment = []\<rparr>
     \<and> parse_qs lib ''f=&id=9'' = [(''id'', [''9''])]
     \<and> filename_hint lib ''http://x/get?f=&id=9'' = Inr ''get''
     \<and> sanitize_filename lib ''http://x/get?f=&id=9'' = Inr ''get''
     \<and> sanitize_filename lib ''http://[x/get?f=clip.mp4'' = Inl ValueError"
proof
  fix lib
  show "urlsplit lib ''http://x/get?f=&id=9''
       = Inr \<lparr>scheme = ''http'', netloc = ''x'', path = ''/get'', query = ''f=&id=9'',
              fragment = []\<rparr>
     \<and> parse_qs lib ''f=&id=9'' = [(''id'', [''9''])]
     \<and> filename_hint lib ''http://x/get?f=&id=9'' = Inr ''get''
     \<and> sanitize_filename lib ''http://x/get?f=&id=9'' = Inr ''get''
     \<and> sanitize_filename lib ''http://[x/get?f=clip.mp4'' = Inl ValueError"
    by code_simp
qed

section \<open>What \<open>download_video\<close> returns\<close>

lemma write_chunks_raises: "fst (write_chunks name cs lim d) \<in> {None, Some OSError}"
proof (induction cs arbitrary: lim d)
  case Nil
  show ?case by simp
next
  case (Cons c cs)
  show ?case
  proof (cases lim)
    case None
    with Cons [of None] show ?thesis by simp
  next
    case (Some k)
    with Cons [of "Some (k - 1)"] show ?thesis by (cases k) simp_all
  qed
qed

lemma write_chunks_unlimited: "fst (write_chunks name cs None d) = None"
  by (induction cs arbitrary: d) simp_all

lemma save_body_no_request_exception: "fst (save_body d name r w) \<noteq> Inl RequestException"
proof -
  have "fst (write_chunks name (chunks r) (writable w) (open_wb name d)) \<noteq> Some RequestException"
    using write_chunks_raises [of name "chunks r" "writable w" "open_wb name d"] by auto
  then show ?thesis
    by (auto simp: save_body_def Let_def split: prod.split option.split)
qed

lemma save_body_broken_stream:
  "stream_breaks r \<Longrightarrow> fst (save_body d name r w) \<noteq> Inr True"
  by (auto simp: save_body_def Let_def split: prod.split option.split)

lemma save_body_request_errors_only:
  assumes "CHR 0x00 \<notin> set name" "\<not> open_fails w" "writable w = None"
    "content_length r \<noteq> BadLength"
  shows "fst (save_body d name r w) = Inr (\<not> stream_breaks r)"
proof -
  have "fst (write_chunks name (chunks r) None (open_wb name d)) = None"
    by (rule write_chunks_unlimited)
  with assms show ?thesis
    by (auto simp: save_body_def Let_def split: prod.split option.split)
qed

lemma download_video_no_request_exception:
  "fst (download_video lib s url w) \<noteq> Inl RequestException"
proof -
  have "fst (case save_body d name r w of (result, d') \<Rightarrow> (result, Some d'))
          \<noteq> Inl RequestException" for d name r
    using save_body_no_request_exception [of d name r w]
    by (cases "save_body d name r w") simp
  moreover have "e \<noteq> RequestException" if "sanitize_filename lib url = Inl e" for e
    using that
    by (auto simp: sanitize_filename_def filename_hint_def urlsplit_def Let_def
        split: sum.splits prod.splits if_splits option.splits)
  ultimately show ?thesis
    by (auto simp: download_video_def Let_def split: option.split sum.split)
qed

lemma download_video_fetch_fails:
  "fetch w = None \<Longrightarrow> \<not> makedirs_raises s w \<Longrightarrow>
     download_video lib s url w = (Inr False, Some (case s of None \<Rightarrow> [] | Some d \<Rightarrow> d))"
  by (auto simp: download_video_def Let_def)

lemma download_video_http_error:
  "fetch w = Some r \<Longrightarrow> http_error r \<Longrightarrow> \<not> makedirs_raises s w \<Longrightarrow>
     download_video lib s url w = (Inr False, Some (case s of None \<Rightarrow> [] | Some d \<Rightarrow> d))"
  by (auto simp: download_video_def Let_def)

lemma download_video_not_video:
  "fetch w = Some r \<Longrightarrow> \<not> py_in ''video'' (case content_type r of None \<Rightarrow> [] | Some t \<Rightarrow> t) \<Longrightarrow>
     \<not> makedirs_raises s w \<Longrightarrow>
     download_video lib s url w = (Inr False, Some (case s of None \<Rightarrow> [] | Some d \<Rightarrow> d))"
  by (auto simp: download_video_def Let_def)

lemma download_video_broken_stream:
  assumes "fetch w = Some r" "stream_breaks r"
  shows "fst (download_video lib s url w) \<noteq> Inr True"
proof -
  have "fst (case save_body d name r w of (result, d') \<Rightarrow> (result, Some d')) \<noteq> Inr True"
    for d name
    using save_body_broken_stream [OF assms(2), of d name w]
    by (cases "save_body d name r w") simp
  with assms show ?thesis
    by (auto simp: download_video_def Let_def split: sum.split)
qed

lemma str_no_nul: "CHR 0x00 \<notin> set (str n)"
proof (induction n rule: str.induct)
  case (1 n)
  have d: "CHR 0x00 \<noteq> digit k" if "k < 10" for k
  proof -
    from that have "k \<in> {0, 1, 2, 3, 4, 5, 6, 7, 8, 9}" by auto
    then show ?thesis by (auto simp: digit_def)
  qed
  show ?case
  proof (cases "n < 10")
    case True
    then show ?thesis using d [of n] by (simp add: str.simps [of n])
  next
    case False
    with 1 have "CHR 0x00 \<notin> set (str (n div 10))" by simp
    with False show ?thesis using d [of "n mod 10"] by (simp add: str.simps [of n])
  qed
qed

lemma splitext_parts:
  "set (fst (splitext p)) \<subseteq> set p \<and> set (snd (splitext p)) \<subseteq> set p"
  by (auto simp: splitext_def Let_def dest: in_set_takeD in_set_dropD)

lemma unused_name_no_nul:
  assumes "CHR 0x00 \<notin> set name"
  shows "CHR 0x00 \<notin> set (unused_name d name)"
proof (cases "path_exists d name")
  case False
  with assms show ?thesis by (simp add: unused_name_free)
next
  case True
  from unused_name_taken [OF True] obtain k where
    "unused_name d name = numbered (fst (splitext name)) (snd (splitext name)) k" by blast
  moreover have "CHR 0x00 \<notin> set (fst (splitext name))" "CHR 0x00 \<notin> set (snd (splitext name))"
    using assms splitext_parts [of name] by auto
  ultimately show ?thesis by (simp add: numbered_def str_no_nul)
qed

lemma download_video_returns:
  assumes "request_errors_only lib url w"
  shows "\<exists>b. fst (download_video lib s url w) = Inr b"
proof -
  from assms have m: "\<not> makedirs_raises s w"
    by (cases s) (simp_all add: request_errors_only_def makedirs_raises_def)
  from assms obtain name where n: "sanitize_filename lib url = Inr name"
    "CHR 0x00 \<notin> set name"
    by (auto simp: request_errors_only_def split: sum.splits)
  show ?thesis
  proof (cases "fetch w")
    case None
    with m show ?thesis by (auto simp: download_video_fetch_fails)
  next
    case (Some r)
    have "fst (save_body d (unused_name d' name) r w) = Inr (\<not> stream_breaks r)" for d d'
      using assms Some unused_name_no_nul [OF n(2), of d']
      by (intro save_body_request_errors_only) (simp_all add: request_errors_only_def)
    then have "fst (case save_body d (unused_name d' name) r w of
                     (result, d'') \<Rightarrow> (result, Some d'')) = Inr (\<not> stream_breaks r)" for d d'
      by (cases "save_body d (unused_name d' name) r w") (metis fst_conv case_prod_conv)
    with m n(1) Some show ?thesis
      by (auto simp: download_video_def Let_def)
  qed
qed

lemma pool_map_length:
  "pool_map lib s tasks = Inr (results, s') \<Longrightarrow> length results = length tasks"
proof (induction tasks arbitrary: s results)
  case Nil
  then show ?case by simp
next
  case (Cons t tasks)
  obtain u w where t: "t = (u, w)" by (cases t)
  from Cons.prems show ?case
    unfolding t by (auto split: prod.splits sum.splits dest: Cons.IH)
qed

lemma pool_map_completes:
  assumes "\<And>u w si. (u, w) \<in> set tasks \<Longrightarrow> \<exists>b. fst (download_video lib si u w) = Inr b"
  shows "\<exists>results s'. pool_map lib s tasks = Inr (results, s')"
  using assms
proof (induction tasks arbitrary: s)
  case Nil
  show ?case by simp
next
  case (Cons t tasks)
  obtain u w where t: "t = (u, w)" by (cases t)
  from Cons.prems [of u w s] t obtain b s1 where d: "download_video lib s u w = (Inr b, s1)"
    by (cases "download_video lib s u w") auto
  from Cons.IH [of s1] Cons.prems obtain rs s2 where "pool_map lib s1 tasks = Inr (rs, s2)"
    by auto
  with d show ?case unfolding t by simp
qed

lemma pool_map_raises:
  "pool_map lib s pre = Inr (rs, s1) \<Longrightarrow> fst (download_video lib s1 url w) = Inl e \<Longrightarrow>
     pool_map lib s (pre @ (url, w) # post) = Inl e"
proof (induction pre arbitrary: s rs)
  case Nil
  then show ?case by (cases "download_video lib s1 url w") auto
next
  case (Cons t pre)
  obtain u v where t: "t = (u, v)" by (cases t)
  from Cons.prems show ?case
    unfolding t by (auto split: prod.splits sum.splits dest: Cons.IH)
qed

lemma pool_map_continues:
  "pool_map lib s pre = Inr (rs, s1) \<Longrightarrow> download_video lib s1 url w = (Inr b, s2) \<Longrightarrow>
     pool_map lib s (pre @ (url, w) # post)
       = (case pool_map lib s2 post of
            Inl e \<Rightarrow> Inl e
          | Inr (rs2, s3) \<Rightarrow> Inr (rs @ b # rs2, s3))"
proof (induction pre arbitrary: s rs)
  case Nil
  then show ?case by (auto split: sum.splits prod.splits)
next
  case (Cons t pre)
  obtain u v where t: "t = (u, v)" by (cases t)
  from Cons.prems(1) obtain b0 s0 rs0 where
    d: "download_video lib s u v = (Inr b0, s0)" and p: "pool_map lib s0 pre = Inr (rs0, s1)"
    and r: "rs = b0 # rs0"
    unfolding t by (auto split: prod.splits sum.splits)
  from Cons.IH [OF p Cons.prems(2)] d r show ?case
    unfolding t by (auto split: sum.splits prod.splits)
qed

lemma tally_count: "tally results n = n + length (filter (\<lambda>b. b) results)"
  by (induction results arbitrary: n) simp_all

lemma pool_map_nth:
  "pool_map lib s tasks = Inr (results, s') \<Longrightarrow> i < length tasks \<Longrightarrow>
     \<exists>si. fst (download_video lib si (fst (tasks ! i)) (snd (tasks ! i))) = Inr (results ! i)"
proof (induction tasks arbitrary: s results i)
  case Nil
  then show ?case by simp
next
  case (Cons t tasks)
  obtain u w where t: "t = (u, w)" by (cases t)
  from Cons.prems(1) obtain b s1 rs where
    d: "download_video lib s u w = (Inr b, s1)" and p: "pool_map lib s1 tasks = Inr (rs, s')"
    and r: "results = b # rs"
    unfolding t by (auto split: prod.splits sum.splits)
  show ?case
  proof (cases i)
    case 0
    with d r t show ?thesis by (intro exI [of _ s]) simp
  next
    case (Suc j)
    with Cons.prems(2) have "j < length tasks" by simp
    from Cons.IH [OF p this] Suc r show ?thesis by simp
  qed
qed

lemma pool_map_cong:
  assumes "\<And>si. download_video lib si url w1 = download_video lib si url w2"
  shows "pool_map lib s (pre @ (url, w1) # post) = pool_map lib s (pre @ (url, w2) # post)"
proof (induction pre arbitrary: s)
  case Nil
  show ?case by (simp add: assms)
next
  case (Cons t pre)
  obtain u v where t: "t = (u, v)" by (cases t)
  show ?case unfolding t by (simp add: Cons.IH split: prod.split sum.split)
qed

section \<open>Skipping, containing and counting\<close>

text \<open>
  Claim C2. When the response that arrived has a \<open>Content-Type\<close> without the substring
  \<open>video\<close> (or no such header), \<open>download_video\<close> returns \<open>False\<close> and the folder holds
  exactly the entries it held before, with their contents, whatever the URL and the body,
  and whether or not opening or writing a file would have worked: no name is chosen, no
  file is opened and no chunk is read. (The folder itself is created at the start when it
  is missing; that \<open>os.makedirs\<close> did not raise is what a response having arrived means.)
\<close>

theorem non_video_skip:
  "fetch w = Some r \<Longrightarrow>
   \<not> py_in ''video'' (case content_type r of None \<Rightarrow> [] | Some t \<Rightarrow> t) \<Longrightarrow>
   \<not> makedirs_raises s w \<Longrightarrow>
   download_video lib s url w = (Inr False, Some (case s of None \<Rightarrow> [] | Some d \<Rightarrow> d))"
  by (rule download_video_not_video)

theorem non_video_skip_witness:
  "\<forall>lib.
     \<not> py_in ''video'' ''text/html''
     \<and> \<not> makedirs_raises (Some [(''old.mp4'', ''abc'')])
           (healthy (Some ((video_reply [''<html>'', ''</html>''])
                             \<lparr>content_type := Some ''text/html''\<rparr>)))
     \<and> download_video lib (Some [(''old.mp4'', ''abc'')]) ''http://x/page.mp4''
          (healthy (Some ((video_reply [''<html>'', ''</html>''])
                            \<lparr>content_type := Some ''text/html''\<rparr>)))
        = (Inr False, Some [(''old.mp4'', ''abc'')])"
proof
  fix lib
  let ?r = "(video_reply [''<html>'', ''</html>''])\<lparr>content_type := Some ''text/html''\<rparr>"
  have a: "\<not> py_in ''video'' ''text/html''" by simp
  have b: "\<not> makedirs_raises (Some [(''old.mp4'', ''abc'')]) (healthy (Some ?r))"
    by (simp add: makedirs_raises_def healthy_def)
  have c: "fetch (healthy (Some ?r)) = Some ?r" by (simp add: healthy_def)
  have d: "\<not> py_in ''video'' (case content_type ?r of None \<Rightarrow> [] | Some t \<Rightarrow> t)"
    by (simp add: video_reply_def)
  from non_video_skip [OF c d b, of lib "''http://x/page.mp4''"] a b
  show "\<not> py_in ''video'' ''text/html''
     \<and> \<not> makedirs_raises (Some [(''old.mp4'', ''abc'')]) (healthy (Some ?r))
     \<and> download_video lib (Some [(''old.mp4'', ''abc'')]) ''http://x/page.mp4''
          (healthy (Some ?r))
        = (Inr False, Some [(''old.mp4'', ''abc'')])"
    by simp
qed

text \<open>
  Claim C1 (as amended). No \<open>RequestException\<close> leaves \<open>download_video\<close>: a failed
  \<open>requests.get\<close> and an error status give the result \<open>False\<close> with the folder as it was,
  and a download whose stream breaks never reports success. A task that ends with
  \<open>False\<close> leaves the rest of the batch to run, and the count is that of the other tasks.
  In a batch in which no download lets an exception escape, every task gets its result and
  \<open>download_videos_concurrently\<close> returns its count. An exception of another class
  (\<open>OSError\<close> from \<open>makedirs\<close>, \<open>open\<close> or \<open>write\<close>, \<open>ValueError\<close> from \<open>urlsplit\<close>, from a
  name with a NUL character or from \<open>Content-Length\<close>) is not caught by \<open>download_video\<close>,
  and \<open>download_videos_concurrently\<close> raises it when it reads that task's result.
\<close>

theorem request_errors_contained:
  "fst (download_video lib s url w) \<noteq> Inl RequestException
   \<and> (fetch w = None \<and> \<not> makedirs_raises s w \<longrightarrow>
        download_video lib s url w
          = (Inr False, Some (case s of None \<Rightarrow> [] | Some d \<Rightarrow> d)))
   \<and> (fetch w = Some r \<and> http_error r \<and> \<not> makedirs_raises s w \<longrightarrow>
        download_video lib s url w
          = (Inr False, Some (case s of None \<Rightarrow> [] | Some d \<Rightarrow> d)))
   \<and> (fetch w = Some r \<and> stream_breaks r \<longrightarrow>
        fst (download_video lib s url w) \<noteq> Inr True)
   \<and> (pool_map lib s pre = Inr (rs, s1) \<and> download_video lib s1 url w = (Inr False, s2) \<longrightarrow>
        download_videos_concurrently lib s (pre @ (url, w) # post)
          = (case pool_map lib s2 post of
               Inl e \<Rightarrow> Inl e
             | Inr (rs2, s3) \<Rightarrow> Inr (tally (rs @ rs2) 0, s3)))
   \<and> ((\<forall>t\<in>set tasks. \<forall>si. \<exists>b. fst (download_video lib si (fst t) (snd t)) = Inr b) \<longrightarrow>
        (\<exists>results s'. pool_map lib s tasks = Inr (results, s')
           \<and> length results = length tasks
           \<and> download_videos_concurrently lib s tasks = Inr (tally results 0, s')))
   \<and> (pool_map lib s pre = Inr (rs, s1) \<and> fst (download_video lib s1 url w) = Inl e \<longrightarrow>
        download_videos_concurrently lib s (pre @ (url, w) # post) = Inl e)"
proof -
  have 1: "fetch w = None \<and> \<not> makedirs_raises s w \<longrightarrow>
        download_video lib s url w
          = (Inr False, Some (case s of None \<Rightarrow> [] | Some d \<Rightarrow> d))"
    using download_video_fetch_fails [of w s lib url] by auto
  have 2: "fetch w = Some r \<and> http_error r \<and> \<not> makedirs_raises s w \<longrightarrow>
        download_video lib s url w
          = (Inr False, Some (case s of None \<Rightarrow> [] | Some d \<Rightarrow> d))"
    using download_video_http_error [of w r s lib url] by auto
  have 3: "fetch w = Some r \<and> stream_breaks r \<longrightarrow>
        fst (download_video lib s url w) \<noteq> Inr True"
    using download_video_broken_stream [of w r lib s url] by auto
  have 4: "pool_map lib s pre = Inr (rs, s1) \<and> download_video lib s1 url w = (Inr False, s2) \<longrightarrow>
        download_videos_concurrently lib s (pre @ (url, w) # post)
          = (case pool_map lib s2 post of
               Inl e \<Rightarrow> Inl e
             | Inr (rs2, s3) \<Rightarrow> Inr (tally (rs @ rs2) 0, s3))"
  proof
    assume h: "pool_map lib s pre = Inr (rs, s1) \<and> download_video lib s1 url w = (Inr False, s2)"
    then have "pool_map lib s (pre @ (url, w) # post)
       = (case pool_map lib s2 post of
            Inl e \<Rightarrow> Inl e
          | Inr (rs2, s3) \<Rightarrow> Inr (rs @ False # rs2, s3))"
      using pool_map_continues [of lib s pre rs s1 url w False s2 post] by blast
    then show "download_videos_concurrently lib s (pre @ (url, w) # post)
          = (case pool_map lib s2 post of
               Inl e \<Rightarrow> Inl e
             | Inr (rs2, s3) \<Rightarrow> Inr (tally (rs @ rs2) 0, s3))"
      by (simp add: download_videos_concurrently_def tally_count split: sum.split prod.split)
  qed
  have 5: "\<exists>results s'. pool_map lib s tasks = Inr (results, s')
           \<and> length results = length tasks
           \<and> download_videos_concurrently lib s tasks = Inr (tally results 0, s')"
    if h: "\<forall>t\<in>set tasks. \<forall>si. \<exists>b. fst (download_video lib si (fst t) (snd t)) = Inr b"
  proof -
    have "\<exists>b. fst (download_video lib si u v) = Inr b" if "(u, v) \<in> set tasks" for u v si
      using h that by fastforce
    from pool_map_completes [of tasks lib s, OF this] obtain results s' where
      p: "pool_map lib s tasks = Inr (results, s')" by blast
    then show ?thesis
      using pool_map_length [OF p] by (simp add: download_videos_concurrently_def)
  qed
  have 6: "pool_map lib s pre = Inr (rs, s1) \<and> fst (download_video lib s1 url w) = Inl e \<longrightarrow>
        download_videos_concurrently lib s (pre @ (url, w) # post) = Inl e"
    using pool_map_raises [of lib s pre rs s1 url w e post]
    by (simp add: download_videos_concurrently_def)
  from download_video_no_request_exception [of lib s url w] 1 2 3 4 5 6
  show ?thesis by blast
qed

theorem request_errors_contained_witness:
  "\<forall>lib.
     download_video lib None ''http://x/b.mp4'' (healthy None) = (Inr False, Some [])
     \<and> download_video lib None ''http://x/d.mp4''
          (healthy (Some ((video_reply [])\<lparr>http_error := True\<rparr>))) = (Inr False, Some [])
     \<and> download_video lib None ''http://x/c.mp4''
          (healthy (Some ((video_reply [''ab''])\<lparr>stream_breaks := True\<rparr>)))
        = (Inr False, Some [(''c.mp4'', ''ab'')])
     \<and> (\<forall>si. \<exists>b. fst (download_video lib si ''http://x/a.mp4''
                        (healthy (Some (video_reply [''ab'', ''cd''])))) = Inr b)
     \<and> (\<forall>si. \<exists>b. fst (download_video lib si ''http://x/b.mp4'' (healthy None)) = Inr b)
     \<and> (\<forall>si. \<exists>b. fst (download_video lib si ''http://x/c.mp4''
                        (healthy (Some ((video_reply [''ab''])\<lparr>stream_breaks := True\<rparr>))))
                     = Inr b)
     \<and> download_videos_concurrently lib None
          [(''http://x/a.mp4'', healthy (Some (video_reply [''ab'', ''cd'']))),
           (''http://x/b.mp4'', healthy None),
           (''http://x/c.mp4'', healthy (Some ((video_reply [''ab''])\<lparr>stream_breaks := True\<rparr>)))]
        = Inr (1, Some [(''a.mp4'', ''abcd''), (''c.mp4'', ''ab'')])"
proof
  fix lib
  let ?wa = "healthy (Some (video_reply [''ab'', ''cd'']))"
  let ?wb = "healthy None"
  let ?rc = "(video_reply [''ab''])\<lparr>stream_breaks := True\<rparr>"
  let ?wc = "healthy (Some ?rc)"
  let ?rd = "(video_reply [])\<lparr>http_error := True\<rparr>"
  let ?tasks = "[(''http://x/a.mp4'', ?wa), (''http://x/b.mp4'', ?wb), (''http://x/c.mp4'', ?wc)]"
  have sa: "sanitize_filename lib ''http://x/a.mp4'' = Inr ''a.mp4''" by code_simp
  have sb: "sanitize_filename lib ''http://x/b.mp4'' = Inr ''b.mp4''" by code_simp
  have sc: "sanitize_filename lib ''http://x/c.mp4'' = Inr ''c.mp4''" by code_simp
  have ra: "request_errors_only lib ''http://x/a.mp4'' ?wa"
    by (simp add: request_errors_only_def healthy_def video_reply_def sa)
  have rb: "request_errors_only lib ''http://x/b.mp4'' ?wb"
    by (simp add: request_errors_only_def healthy_def sb)
  have rc: "request_errors_only lib ''http://x/c.mp4'' ?wc"
    by (simp add: request_errors_only_def healthy_def video_reply_def sc)
  have ha: "\<forall>si. \<exists>b. fst (download_video lib si ''http://x/a.mp4'' ?wa) = Inr b"
    using download_video_returns [OF ra] by blast
  have hb: "\<forall>si. \<exists>b. fst (download_video lib si ''http://x/b.mp4'' ?wb) = Inr b"
    using download_video_returns [OF rb] by blast
  have hc: "\<forall>si. \<exists>b. fst (download_video lib si ''http://x/c.mp4'' ?wc) = Inr b"
    using download_video_returns [OF rc] by blast
  have f1: "download_video lib None ''http://x/b.mp4'' ?wb = (Inr False, Some [])"
    using request_errors_contained [of lib None "''http://x/b.mp4''" ?wb]
    by (simp add: healthy_def makedirs_raises_def)
  have f2: "download_video lib None ''http://x/d.mp4'' (healthy (Some ?rd)) = (Inr False, Some [])"
    using request_errors_contained [of lib None "''http://x/d.mp4''" "healthy (Some ?rd)" ?rd]
    by (simp add: healthy_def makedirs_raises_def)
  have f3: "download_video lib None ''http://x/c.mp4'' ?wc
      = (Inr False, Some [(''c.mp4'', ''ab'')])"
    by code_simp
  have p: "pool_map lib None ?tasks
      = Inr ([True, False, False], Some [(''a.mp4'', ''abcd''), (''c.mp4'', ''ab'')])"
    by code_simp
  from ha hb hc
  have "\<forall>t\<in>set ?tasks. \<forall>si. \<exists>b. fst (download_video lib si (fst t) (snd t)) = Inr b"
    by simp
  with request_errors_contained [of lib None _ _ _ _ _ _ _ _ ?tasks]
  have "\<exists>results s'. pool_map lib None ?tasks = Inr (results, s')
           \<and> length results = length ?tasks
           \<and> download_videos_concurrently lib None ?tasks = Inr (tally results 0, s')"
    by blast
  with p have "download_videos_concurrently lib None ?tasks
      = Inr (1, Some [(''a.mp4'', ''abcd''), (''c.mp4'', ''ab'')])"
    by auto
  with f1 f2 f3 ha hb hc
  show "download_video lib None ''http://x/b.mp4'' ?wb = (Inr False, Some [])
     \<and> download_video lib None ''http://x/d.mp4'' (healthy (Some ?rd)) = (Inr False, Some [])
     \<and> download_video lib None ''http://x/c.mp4'' ?wc = (Inr False, Some [(''c.mp4'', ''ab'')])
     \<and> (\<forall>si. \<exists>b. fst (download_video lib si ''http://x/a.mp4'' ?wa) = Inr b)
     \<and> (\<forall>si. \<exists>b. fst (download_video lib si ''http://x/b.mp4'' ?wb) = Inr b)
     \<and> (\<forall>si. \<exists>b. fst (download_video lib si ''http://x/c.mp4'' ?wc) = Inr b)
     \<and> download_videos_concurrently lib None ?tasks
        = Inr (1, Some [(''a.mp4'', ''abcd''), (''c.mp4'', ''ab'')])"
    by simp
qed

text \<open>
  Claim C1 as stated fails for an error raised while the body is written: the second
  \<open>write\<close> raises \<open>OSError\<close>, which \<open>download_video\<close> does not catch (the first chunk stays
  on disk), and \<open>download_videos_concurrently\<close> raises it instead of returning a count.
\<close>

theorem write_error_leaves_downloader:
  "\<forall>lib.
     download_video lib None ''http://x/a.mp4''
         ((healthy (Some (video_reply [''ab'', ''cd''])))\<lparr>writable := Some 1\<rparr>)
       = (Inl OSError, Some [(''a.mp4'', ''ab'')])
     \<and> download_videos_concurrently lib None
          [(''http://x/a.mp4'', (healthy (Some (video_reply [''ab'', ''cd''])))\<lparr>writable := Some 1\<rparr>),
           (''http://x/b.mp4'', healthy (Some (video_reply [''ef''])))]
         = Inl OSError"
proof
  fix lib
  show "download_video lib None ''http://x/a.mp4''
         ((healthy (Some (video_reply [''ab'', ''cd''])))\<lparr>writable := Some 1\<rparr>)
       = (Inl OSError, Some [(''a.mp4'', ''ab'')])
     \<and> download_videos_concurrently lib None
          [(''http://x/a.mp4'', (healthy (Some (video_reply [''ab'', ''cd''])))\<lparr>writable := Some 1\<rparr>),
           (''http://x/b.mp4'', healthy (Some (video_reply [''ef''])))]
         = Inl OSError"
    by code_simp
qed

text \<open>
  The other exceptions that leave \<open>download_video\<close>: the \<open>ValueError\<close> of \<open>urlsplit\<close> for a
  netloc with an unmatched bracket, the \<open>ValueError\<close> of \<open>open\<close> for the name a parameter
  \<open>f=%00\<close> gives, and the \<open>FileExistsError\<close> of \<open>os.makedirs\<close> when the folder test ran
  before another worker created the folder.
\<close>

lemma other_errors_leave_downloader:
  "download_video lib None ''http://[@x/b.mp4'' (healthy (Some (video_reply [''ab''])))
     = (Inl ValueError, Some [])
   \<and> download_video lib None ''http://x/get?f=%00'' (healthy (Some (video_reply [''ab''])))
     = (Inl ValueError, Some [])
   \<and> download_video lib (Some []) ''http://x/a.mp4''
        ((healthy (Some (video_reply [''ab''])))\<lparr>folder_check_early := True\<rparr>)
     = (Inl OSError, Some [])
   \<and> download_videos_concurrently lib None
        [(''http://x/a.mp4'', healthy (Some (video_reply [''ab'']))),
         (''http://[@x/b.mp4'', healthy (Some (video_reply [''cd''])))]
     = Inl ValueError"
  by code_simp

text \<open>
  Claim C6 (as amended). When \<open>executor.map\<close> delivers all its results, which it does
  whenever no download raises, there is exactly one result per task, the \<open>i\<close>-th being what
  \<open>download_video\<close> returned for the \<open>i\<close>-th task, and the count returned is the number of
  results that are \<open>True\<close>; the number of tasks attempted is the length of the input list
  however many of them succeed, are skipped or fail.
\<close>

theorem summary_accounting:
  "(pool_map lib s tasks = Inr (results, s') \<longrightarrow>
      length results = length tasks
      \<and> (\<forall>i<length tasks. \<exists>si.
            fst (download_video lib si (fst (tasks ! i)) (snd (tasks ! i))) = Inr (results ! i))
      \<and> download_videos_concurrently lib s tasks = Inr (length (filter (\<lambda>b. b) results), s'))
   \<and> ((\<forall>t\<in>set tasks. \<forall>si. \<exists>b. fst (download_video lib si (fst t) (snd t)) = Inr b) \<longrightarrow>
        (\<exists>results s'. pool_map lib s tasks = Inr (results, s')))"
proof -
  have 1: "length results = length tasks
      \<and> (\<forall>i<length tasks. \<exists>si.
            fst (download_video lib si (fst (tasks ! i)) (snd (tasks ! i))) = Inr (results ! i))
      \<and> download_videos_concurrently lib s tasks = Inr (length (filter (\<lambda>b. b) results), s')"
    if p: "pool_map lib s tasks = Inr (results, s')"
    using pool_map_length [OF p] pool_map_nth [OF p] p
    by (simp add: download_videos_concurrently_def tally_count)
  have 2: "\<exists>results s'. pool_map lib s tasks = Inr (results, s')"
    if h: "\<forall>t\<in>set tasks. \<forall>si. \<exists>b. fst (download_video lib si (fst t) (snd t)) = Inr b"
  proof (rule pool_map_completes)
    fix u w si assume "(u, w) \<in> set tasks"
    with h show "\<exists>b. fst (download_video lib si u w) = Inr b" by fastforce
  qed
  from 1 2 show ?thesis by blast
qed

theorem summary_accounting_witness:
  "\<forall>lib.
     (\<forall>si. \<exists>b. fst (download_video lib si ''http://x/a.mp4''
                       (healthy (Some (video_reply [''ab'', ''cd''])))) = Inr b)
     \<and> (\<forall>si. \<exists>b. fst (download_video lib si ''http://x/page''
                       (healthy (Some ((video_reply [''<p>''])\<lparr>content_type := Some ''text/html''\<rparr>))))
                     = Inr b)
     \<and> (\<forall>si. \<exists>b. fst (download_video lib si ''http://x/b.mp4'' (healthy None)) = Inr b)
     \<and> pool_map lib None
          [(''http://x/a.mp4'', healthy (Some (video_reply [''ab'', ''cd'']))),
           (''http://x/page'', healthy (Some ((video_reply [''<p>''])\<lparr>content_type := Some ''text/html''\<rparr>))),
           (''http://x/b.mp4'', healthy None)]
       = Inr ([True, False, False], Some [(''a.mp4'', ''abcd'')])
     \<and> download_videos_concurrently lib None
          [(''http://x/a.mp4'', healthy (Some (video_reply [''ab'', ''cd'']))),
           (''http://x/page'', healthy (Some ((video_reply [''<p>''])\<lparr>content_type := Some ''text/html''\<rparr>))),
           (''http://x/b.mp4'', healthy None)]
       = Inr (1, Some [(''a.mp4'', ''abcd'')])"
proof
  fix lib
  let ?w1 = "healthy (Some (video_reply [''ab'', ''cd'']))"
  let ?w2 = "healthy (Some ((video_reply [''<p>''])\<lparr>content_type := Some ''text/html''\<rparr>))"
  let ?w3 = "healthy None"
  let ?tasks = "[(''http://x/a.mp4'', ?w1), (''http://x/page'', ?w2), (''http://x/b.mp4'', ?w3)]"
  have s1: "sanitize_filename lib ''http://x/a.mp4'' = Inr ''a.mp4''" by code_simp
  have s2: "sanitize_filename lib ''http://x/page'' = Inr ''page''" by code_simp
  have s3: "sanitize_filename lib ''http://x/b.mp4'' = Inr ''b.mp4''" by code_simp
  have r: "request_errors_only lib ''http://x/a.mp4'' ?w1"
    "request_errors_only lib ''http://x/page'' ?w2"
    "request_errors_only lib ''http://x/b.mp4'' ?w3"
    by (simp_all add: request_errors_only_def healthy_def video_reply_def s1 s2 s3)
  have h1: "\<forall>si. \<exists>b. fst (download_video lib si ''http://x/a.mp4'' ?w1) = Inr b"
    using download_video_returns [OF r(1)] by blast
  have h2: "\<forall>si. \<exists>b. fst (download_video lib si ''http://x/page'' ?w2) = Inr b"
    using download_video_returns [OF r(2)] by blast
  have h3: "\<forall>si. \<exists>b. fst (download_video lib si ''http://x/b.mp4'' ?w3) = Inr b"
    using download_video_returns [OF r(3)] by blast
  from h1 h2 h3
  have h: "\<forall>t\<in>set ?tasks. \<forall>si. \<exists>b. fst (download_video lib si (fst t) (snd t)) = Inr b"
    by simp
  from summary_accounting [of lib None ?tasks] h
  obtain results s' where p0: "pool_map lib None ?tasks = Inr (results, s')" by blast
  have p: "pool_map lib None ?tasks = Inr ([True, False, False], Some [(''a.mp4'', ''abcd'')])"
    by code_simp
  from summary_accounting [of lib None ?tasks "[True, False, False]" "Some [(''a.mp4'', ''abcd'')]"] p
  have "download_videos_concurrently lib None ?tasks
      = Inr (length (filter (\<lambda>b. b) [True, False, False]), Some [(''a.mp4'', ''abcd'')])"
    by blast
  with p h1 h2 h3
  show "(\<forall>si. \<exists>b. fst (download_video lib si ''http://x/a.mp4'' ?w1) = Inr b)
     \<and> (\<forall>si. \<exists>b. fst (download_video lib si ''http://x/page'' ?w2) = Inr b)
     \<and> (\<forall>si. \<exists>b. fst (download_video lib si ''http://x/b.mp4'' ?w3) = Inr b)
     \<and> pool_map lib None ?tasks = Inr ([True, False, False], Some [(''a.mp4'', ''abcd'')])
     \<and> download_videos_concurrently lib None ?tasks = Inr (1, Some [(''a.mp4'', ''abcd'')])"
    by simp
qed

text \<open>
  Claim C6 as stated fails for a task list in which a download raises: when \<open>open\<close> raises
  \<open>OSError\<close> for the second of two tasks (a name longer than the file system allows, say),
  \<open>download_videos_concurrently\<close> raises and returns no count for the two tasks it was given.
\<close>

theorem open_error_leaves_no_summary:
  "\<forall>lib.
     download_videos_concurrently lib None
        [(''http://x/a.mp4'', healthy (Some (video_reply [''ab'', ''cd'']))),
         (''http://x/b.mp4'', (healthy (Some (video_reply [''ef''])))\<lparr>open_fails := True\<rparr>)]
     = Inl OSError"
proof
  fix lib
  show "download_videos_concurrently lib None
        [(''http://x/a.mp4'', healthy (Some (video_reply [''ab'', ''cd'']))),
         (''http://x/b.mp4'', (healthy (Some (video_reply [''ef''])))\<lparr>open_fails := True\<rparr>)]
     = Inl OSError"
    by code_simp
qed

text \<open>
  Claim C10. \<open>download_video\<close> returns \<open>False\<close> both for a response that is not a video and
  for a fetch that fails (\<open>requests.get\<close> raises, or the status is an error), and in both
  cases leaves the folder as it was; so the two calls are equal, a batch gives the same
  count and the same folder whichever of the two happened to one of its tasks, and such a
  task adds nothing to the count.
\<close>

theorem skip_and_failure_conflated:
  "(fetch w1 = Some r1 \<and> \<not> http_error r1
      \<and> \<not> py_in ''video'' (case content_type r1 of None \<Rightarrow> [] | Some t \<Rightarrow> t)
      \<and> (fetch w2 = None \<or> (\<exists>r2. fetch w2 = Some r2 \<and> http_error r2))
      \<and> makedirs_fails w2 = makedirs_fails w1
      \<and> folder_check_early w2 = folder_check_early w1 \<longrightarrow>
        download_video lib s url w1 = download_video lib s url w2
        \<and> download_videos_concurrently lib s (pre @ (url, w1) # post)
            = download_videos_concurrently lib s (pre @ (url, w2) # post)
        \<and> (\<not> makedirs_raises s w1 \<longrightarrow>
             fst (download_video lib s url w1) = Inr False
             \<and> fst (download_video lib s url w2) = Inr False))
   \<and> tally (rs1 @ False # rs2) n = tally (rs1 @ rs2) n"
proof -
  have 1: "download_video lib si url w1 = download_video lib si url w2
          \<and> (\<not> makedirs_raises si w1 \<longrightarrow>
             fst (download_video lib si url w1) = Inr False
             \<and> fst (download_video lib si url w2) = Inr False)"
    if h: "fetch w1 = Some r1 \<and> \<not> http_error r1
      \<and> \<not> py_in ''video'' (case content_type r1 of None \<Rightarrow> [] | Some t \<Rightarrow> t)
      \<and> (fetch w2 = None \<or> (\<exists>r2. fetch w2 = Some r2 \<and> http_error r2))
      \<and> makedirs_fails w2 = makedirs_fails w1
      \<and> folder_check_early w2 = folder_check_early w1" for si
  proof -
    from h have m: "makedirs_raises si w2 = makedirs_raises si w1"
      by (cases si) (simp_all add: makedirs_raises_def)
    show ?thesis
    proof (cases "makedirs_raises si w1")
      case True
      with m show ?thesis by (simp add: download_video_def)
    next
      case False
      with h have a: "download_video lib si url w1
          = (Inr False, Some (case si of None \<Rightarrow> [] | Some d \<Rightarrow> d))"
        by (intro download_video_not_video [of w1 r1]) auto
      from h False m have b: "download_video lib si url w2
          = (Inr False, Some (case si of None \<Rightarrow> [] | Some d \<Rightarrow> d))"
        using download_video_fetch_fails [of w2 si lib url]
          download_video_http_error [of w2 _ si lib url]
        by auto
      from a b False show ?thesis by simp
    qed
  qed
  have 2: "download_videos_concurrently lib s (pre @ (url, w1) # post)
            = download_videos_concurrently lib s (pre @ (url, w2) # post)"
    if h: "fetch w1 = Some r1 \<and> \<not> http_error r1
      \<and> \<not> py_in ''video'' (case content_type r1 of None \<Rightarrow> [] | Some t \<Rightarrow> t)
      \<and> (fetch w2 = None \<or> (\<exists>r2. fetch w2 = Some r2 \<and> http_error r2))
      \<and> makedirs_fails w2 = makedirs_fails w1
      \<and> folder_check_early w2 = folder_check_early w1"
  proof -
    have "pool_map lib s (pre @ (url, w1) # post) = pool_map lib s (pre @ (url, w2) # post)"
      by (rule pool_map_cong) (simp add: 1 [OF h])
    then show ?thesis by (simp add: download_videos_concurrently_def)
  qed
  have 3: "tally (rs1 @ False # rs2) n = tally (rs1 @ rs2) n"
    by (simp add: tally_count)
  from 1 [of s] 2 3 show ?thesis by blast
qed

theorem skip_and_failure_conflated_witness:
  "\<forall>lib.
     \<not> py_in ''video'' ''text/html''
     \<and> download_video lib None ''http://x/page''
          (healthy (Some ((video_reply [''<p>''])\<lparr>content_type := Some ''text/html''\<rparr>)))
        = (Inr False, Some [])
     \<and> download_video lib None ''http://x/page'' (healthy None) = (Inr False, Some [])
     \<and> download_videos_concurrently lib None
          ([(''http://x/a.mp4'', healthy (Some (video_reply [''ab''])))]
           @ (''http://x/page'',
               healthy (Some ((video_reply [''<p>''])\<lparr>content_type := Some ''text/html''\<rparr>)))
           # [(''http://x/b.mp4'', healthy (Some (video_reply [''cd''])))])
        = Inr (2, Some [(''a.mp4'', ''ab''), (''b.mp4'', ''cd'')])
     \<and> download_videos_concurrently lib None
          ([(''http://x/a.mp4'', healthy (Some (video_reply [''ab''])))]
           @ (''http://x/page'', healthy None)
           # [(''http://x/b.mp4'', healthy (Some (video_reply [''cd''])))])
        = Inr (2, Some [(''a.mp4'', ''ab''), (''b.mp4'', ''cd'')])"
proof
  fix lib
  let ?skip = "healthy (Some ((video_reply [''<p>''])\<lparr>content_type := Some ''text/html''\<rparr>))"
  let ?r = "(video_reply [''<p>''])\<lparr>content_type := Some ''text/html''\<rparr>"
  let ?pre = "[(''http://x/a.mp4'', healthy (Some (video_reply [''ab''])))]"
  let ?post = "[(''http://x/b.mp4'', healthy (Some (video_reply [''cd''])))]"
  have h: "fetch ?skip = Some ?r \<and> \<not> http_error ?r
      \<and> \<not> py_in ''video'' (case content_type ?r of None \<Rightarrow> [] | Some t \<Rightarrow> t)
      \<and> (fetch (healthy None) = None \<or> (\<exists>r2. fetch (healthy None) = Some r2 \<and> http_error r2))
      \<and> makedirs_fails (healthy None) = makedirs_fails ?skip
      \<and> folder_check_early (healthy None) = folder_check_early ?skip"
    by (simp add: healthy_def video_reply_def)
  have n: "\<not> py_in ''video'' ''text/html''" by simp
  have a: "download_video lib None ''http://x/page'' (healthy None) = (Inr False, Some [])"
    by code_simp
  have b: "download_videos_concurrently lib None (?pre @ (''http://x/page'', healthy None) # ?post)
     = Inr (2, Some [(''a.mp4'', ''ab''), (''b.mp4'', ''cd'')])"
    by code_simp
  from skip_and_failure_conflated
    [of ?skip ?r "healthy None" lib None "''http://x/page''" ?pre ?post] h
  have "download_video lib None ''http://x/page'' ?skip
          = download_video lib None ''http://x/page'' (healthy None)
        \<and> download_videos_concurrently lib None (?pre @ (''http://x/page'', ?skip) # ?post)
            = download_videos_concurrently lib None (?pre @ (''http://x/page'', healthy None) # ?post)"
    by blast
  with a b n
  show "\<not> py_in ''video'' ''text/html''
     \<and> download_video lib None ''http://x/page'' ?skip = (Inr False, Some [])
     \<and> download_video lib None ''http://x/page'' (healthy None) = (Inr False, Some [])
     \<and> download_videos_concurrently lib None (?pre @ (''http://x/page'', ?skip) # ?post)
        = Inr (2, Some [(''a.mp4'', ''ab''), (''b.mp4'', ''cd'')])
     \<and> download_videos_concurrently lib None (?pre @ (''http://x/page'', healthy None) # ?post)
        = Inr (2, Some [(''a.mp4'', ''ab''), (''b.mp4'', ''cd'')])"
    by simp
qed

end
